theory Spec2Isabelle
  imports Complex_Main "HOL-Library.Word" "HOL-Library.Sublist"
begin

unbundle bit_operations_syntax

section \<open>Sentiment / emotion tracker (SentimentAnalysisPanel.tsx)\<close>

text \<open>
  The panel keeps five pieces of React state and one interval timer.  The interval
  callback reads \<open>currentProgressionIndex\<close>; it is re-created by the effect whenever that
  index changes, and repeats by itself otherwise, so in both cases the next callback runs
  4000 ms after the previous one.  Time is a virtual clock in milliseconds.
\<close>

datatype sentiment_label = Positive | Neutral | Negative

record snapshot =
  sp_time :: string
  sp_sentiment :: nat
  sp_emotions :: "string list"
  sp_currentSentiment :: sentiment_label
  sp_confidence :: nat

record emotion =
  name :: string
  active :: bool
  color :: string

definition sentimentProgression :: "snapshot list" where
  "sentimentProgression =
   [\<lparr>sp_time = ''0:00'', sp_sentiment = 70, sp_emotions = [''Calm'', ''Polite''],
       sp_currentSentiment = Neutral, sp_confidence = 85\<rparr>,
    \<lparr>sp_time = ''0:15'', sp_sentiment = 30, sp_emotions = [''Frustrated'', ''Urgent''],
       sp_currentSentiment = Negative, sp_confidence = 92\<rparr>,
    \<lparr>sp_time = ''0:45'', sp_sentiment = 40, sp_emotions = [''Concerned'', ''Hopeful''],
       sp_currentSentiment = Neutral, sp_confidence = 78\<rparr>,
    \<lparr>sp_time = ''1:15'', sp_sentiment = 45, sp_emotions = [''Cooperative'', ''Patient''],
       sp_currentSentiment = Neutral, sp_confidence = 82\<rparr>,
    \<lparr>sp_time = ''1:45'', sp_sentiment = 50, sp_emotions = [''Understanding'', ''Attentive''],
       sp_currentSentiment = Neutral, sp_confidence = 88\<rparr>,
    \<lparr>sp_time = ''2:30'', sp_sentiment = 25, sp_emotions = [''Angry'', ''Impatient''],
       sp_currentSentiment = Negative, sp_confidence = 95\<rparr>,
    \<lparr>sp_time = ''3:15'', sp_sentiment = 55, sp_emotions = [''Cautious'', ''Skeptical''],
       sp_currentSentiment = Neutral, sp_confidence = 86\<rparr>,
    \<lparr>sp_time = ''4:00'', sp_sentiment = 45, sp_emotions = [''Worried'', ''Questioning''],
       sp_currentSentiment = Neutral, sp_confidence = 83\<rparr>,
    \<lparr>sp_time = ''4:45'', sp_sentiment = 65, sp_emotions = [''Relieved'', ''Optimistic''],
       sp_currentSentiment = Neutral, sp_confidence = 89\<rparr>,
    \<lparr>sp_time = ''5:30'', sp_sentiment = 75, sp_emotions = [''Satisfied'', ''Grateful''],
       sp_currentSentiment = Positive, sp_confidence = 91\<rparr>,
    \<lparr>sp_time = ''6:15'', sp_sentiment = 85, sp_emotions = [''Happy'', ''Appreciative''],
       sp_currentSentiment = Positive, sp_confidence = 94\<rparr>]"

definition getEmotionColor :: "string \<Rightarrow> string" where
  "getEmotionColor e =
     (if e = ''Frustrated'' \<or> e = ''Angry'' then ''bg-red-500''
      else if e = ''Concerned'' \<or> e = ''Cautious'' \<or> e = ''Skeptical'' then ''bg-orange-500''
      else if e = ''Happy'' \<or> e = ''Satisfied'' \<or> e = ''Grateful'' \<or> e = ''Appreciative''
        then ''bg-green-500''
      else if e = ''Urgent'' \<or> e = ''Impatient'' then ''bg-yellow-500''
      else if e = ''Relieved'' \<or> e = ''Hopeful'' then ''bg-emerald-500''
      else ''bg-blue-500'')"

definition getSentimentProgress :: "sentiment_label \<Rightarrow> nat" where
  "getSentimentProgress s = (case s of Positive \<Rightarrow> 85 | Negative \<Rightarrow> 25 | Neutral \<Rightarrow> 50)"

record sentiment_panel =
  currentSentiment :: sentiment_label
  confidenceScore :: nat
  sentimentHistory :: "snapshot list"
  currentProgressionIndex :: nat
  emotions :: "emotion list"
  panelClock :: rat
  intervalDue :: rat

definition defaultEmotions :: "string list" where
  "defaultEmotions = [''Attentive'', ''Focused'', ''Engaged'', ''Responsive'']"

text \<open>
  The two \<open>forEach\<close> bodies of the rebuild; the accumulator is the pair of the local
  \<open>emotionSet\<close> and \<open>newEmotions\<close>.  An empty name is falsy in JavaScript and is
  skipped by the test \<open>emotion && ...\<close>.
\<close>

definition addPointEmotion ::
    "string \<Rightarrow> string set \<times> emotion list \<Rightarrow> string set \<times> emotion list" where
  "addPointEmotion e acc =
     (case acc of (emotionSet, newEmotions) \<Rightarrow>
        if e \<noteq> [] \<and> e \<notin> emotionSet
        then (insert e emotionSet,
              newEmotions @ [\<lparr>name = e, active = True, color = getEmotionColor e\<rparr>])
        else acc)"

definition addDefaultEmotion ::
    "sentiment_label \<Rightarrow> string \<Rightarrow> string set \<times> emotion list \<Rightarrow> string set \<times> emotion list" where
  "addDefaultEmotion cur e acc =
     (case acc of (emotionSet, newEmotions) \<Rightarrow>
        if length newEmotions < 4 \<and> e \<notin> emotionSet
        then (insert e emotionSet,
              newEmotions @ [\<lparr>name = e, active = (cur = Positive), color = ''bg-blue-500''\<rparr>])
        else acc)"

definition rebuildEmotions :: "snapshot \<Rightarrow> emotion list" where
  "rebuildEmotions nextPoint =
     snd (fold (addDefaultEmotion (sp_currentSentiment nextPoint)) defaultEmotions
            (fold addPointEmotion (sp_emotions nextPoint) ({}, [])))"

text \<open>\<open>xs.slice(-8)\<close>: the last eight elements, all of them when there are fewer.\<close>

definition sliceLast :: "nat \<Rightarrow> 'a list \<Rightarrow> 'a list" where
  "sliceLast n xs = drop (length xs - n) xs"

text \<open>
  The body of the interval callback.  The guard is the source's
  \<open>currentProgressionIndex < sentimentProgression.length - 1\<close>, over the integers since the
  right-hand side is \<open>-1\<close> for an empty script.
\<close>

definition tickBody :: "snapshot list \<Rightarrow> sentiment_panel \<Rightarrow> sentiment_panel" where
  "tickBody prog s =
     (if int (currentProgressionIndex s) < int (length prog) - 1 then
        let nextIndex = currentProgressionIndex s + 1;
            nextPoint = prog ! nextIndex
        in s\<lparr>currentProgressionIndex := nextIndex,
              currentSentiment := sp_currentSentiment nextPoint,
              confidenceScore := sp_confidence nextPoint,
              emotions := rebuildEmotions nextPoint,
              sentimentHistory := sliceLast 8 (sentimentHistory s @ [nextPoint])\<rparr>
      else s)"

text \<open>One firing of the interval: the clock moves to the due time, the callback runs, and
  the next firing is due 4000 ms later.\<close>

definition tick :: "snapshot list \<Rightarrow> sentiment_panel \<Rightarrow> sentiment_panel" where
  "tick prog s =
     (tickBody prog (s\<lparr>panelClock := intervalDue s\<rparr>))\<lparr>intervalDue := intervalDue s + 4000\<rparr>"

definition initialPanel :: "snapshot list \<Rightarrow> sentiment_panel" where
  "initialPanel prog =
     \<lparr>currentSentiment = Neutral, confidenceScore = 85,
      sentimentHistory = take 1 prog, currentProgressionIndex = 0,
      emotions = [\<lparr>name = ''Neutral'', active = True, color = ''bg-blue-500''\<rparr>,
                  \<lparr>name = ''Polite'', active = True, color = ''bg-green-500''\<rparr>,
                  \<lparr>name = ''Cooperative'', active = False, color = ''bg-green-500''\<rparr>,
                  \<lparr>name = ''Urgent'', active = False, color = ''bg-yellow-500''\<rparr>],
      panelClock = 0, intervalDue = 4000\<rparr>"

definition ticks :: "snapshot list \<Rightarrow> nat \<Rightarrow> sentiment_panel" where
  "ticks prog n = ((tick prog) ^^ n) (initialPanel prog)"

text \<open>The React state of the panel without the clock: what the presentation layer reads.\<close>

definition panelView ::
    "sentiment_panel \<Rightarrow> sentiment_label \<times> nat \<times> emotion list \<times> snapshot list \<times> nat" where
  "panelView s =
     (currentSentiment s, confidenceScore s, emotions s, sentimentHistory s,
      currentProgressionIndex s)"


section \<open>JavaScript strings\<close>

text \<open>
  A JavaScript string is a sequence of UTF-16 code units; \<open>text[i]\<close>, \<open>length\<close> and
  \<open>substring\<close> count code units.  \<open>js\<close> embeds an ASCII literal.
\<close>

type_synonym jschar = "16 word"
type_synonym jsstring = "jschar list"

definition ch :: "char \<Rightarrow> jschar" where
  "ch c = of_nat (of_char c)"

definition js :: "string \<Rightarrow> jsstring" where
  "js s = map ch s"

text \<open>
  The code units matched by \<open>\s\<close> in a regular expression and removed by \<open>trim()\<close>:
  the ECMAScript WhiteSpace and LineTerminator code points.
\<close>

definition isWhiteSpace :: "jschar \<Rightarrow> bool" where
  "isWhiteSpace c =
     (c \<in> {0x09, 0x0A, 0x0B, 0x0C, 0x0D, 0x20, 0xA0, 0x1680, 0x2028, 0x2029, 0x202F, 0x205F,
            0x3000, 0xFEFF}
      \<or> (0x2000 \<le> c \<and> c \<le> 0x200A))"

definition trim :: "jsstring \<Rightarrow> jsstring" where
  "trim s = rev (dropWhile isWhiteSpace (rev (dropWhile isWhiteSpace s)))"

text \<open>\<open>s.split(sep)\<close> for a one-unit separator: never empty, \<open>[[]]\<close> for the empty string.\<close>

fun split :: "jschar \<Rightarrow> jsstring \<Rightarrow> jsstring list" where
  "split sep [] = [[]]"
| "split sep (c # cs) =
     (if c = sep then [] # split sep cs
      else (case split sep cs of [] \<Rightarrow> [[c]] | w # ws \<Rightarrow> (c # w) # ws))"

definition isDigit :: "jschar \<Rightarrow> bool" where
  "isDigit c = (0x30 \<le> c \<and> c \<le> 0x39)"

definition isAsciiLetter :: "jschar \<Rightarrow> bool" where
  "isAsciiLetter c = ((0x61 \<le> c \<and> c \<le> 0x7A) \<or> (0x41 \<le> c \<and> c \<le> 0x5A))"

text \<open>
  \<open>char.toLowerCase()\<close> for a single code unit, on the ASCII range.  Outside ASCII the
  model returns the unit itself: no code unit outside ASCII has a lower case that is one of
  the nine letters the caller tests for, so membership in that list is as in JavaScript.
\<close>

definition toLowerCase :: "jschar \<Rightarrow> jschar" where
  "toLowerCase c = (if 0x41 \<le> c \<and> c \<le> 0x5A then c + 0x20 else c)"

section \<open>Typed reveal engine (TypewriterText)\<close>

text \<open>
  \<open>getTypingSpeed\<close>.  Delays are exact rationals (the rounding of IEEE doubles is not
  modelled).  The argument \<open>rnd\<close> is the value \<open>Math.random()\<close> returns when the last
  branch calls it, a number in \<open>[0, 1)\<close>.
\<close>

definition getTypingSpeed :: "rat \<Rightarrow> rat \<Rightarrow> jschar \<Rightarrow> nat \<Rightarrow> jsstring \<Rightarrow> rat" where
  "getTypingSpeed speed rnd char index fullText =
     (let baseSpeed = speed in
      if char \<in> set (js ''.!?'') then baseSpeed * 3
      else if char \<in> set (js '',;:'') then baseSpeed * 2
      else if char = ch CHR '' '' then
        (let wordBefore = last (split (ch CHR '' '') (take index fullText)) in
         if length wordBefore > 7 then baseSpeed * 2 else baseSpeed * (13 / 10))
      else if toLowerCase char \<in> set (js ''etaoinshr'') then baseSpeed * (7 / 10)
      else if isDigit char then baseSpeed * (14 / 10)
      else if \<not> (isAsciiLetter char \<or> isDigit char \<or> isWhiteSpace char)
              \<and> char \<notin> set (js ''.!?,;:'') then baseSpeed * (13 / 10)
      else (let variation = (rnd - 1 / 2) * (1 / 2) in
            max (baseSpeed * (1 + variation)) (baseSpeed * (3 / 10))))"

text \<open>
  Props of the component.  A callback prop is optional; a present callback is identified by
  a number, and two props are the same function exactly when the numbers are equal (React
  compares effect dependencies with \<open>Object.is\<close>).
\<close>

record tw_props =
  textProp :: jsstring
  speed :: rat
  delay :: rat
  onComplete :: "nat option"
  onStart :: "nat option"

text \<open>What the component does that is visible from outside, in order.\<close>

datatype tw_event =
    Displayed jsstring
  | OnStart nat
  | OnComplete nat
  | SetTimeout rat

text \<open>The closure passed to \<open>setTimeout\<close>: the render's \<open>currentIndex\<close>,
  \<open>currentChar\<close> and \<open>onStart\<close>, with the delay it was registered for.\<close>

record tw_timeout =
  to_index :: nat
  to_char :: jschar
  to_onStart :: "nat option"
  to_ms :: rat

record tw_state =
  displayedText :: jsstring
  currentIndex :: nat
  isTyping :: bool
  pendingTimeout :: "tw_timeout option"
  effectRuns :: nat
  trace :: "tw_event list"

definition callback :: "(nat \<Rightarrow> tw_event) \<Rightarrow> nat option \<Rightarrow> tw_event list" where
  "callback ev f = (case f of None \<Rightarrow> [] | Some g \<Rightarrow> [ev g])"

text \<open>
  The first effect (dependencies \<open>currentIndex, text, speed, delay, onComplete, onStart\<close>).
  \<open>rnd k\<close> is the value \<open>Math.random()\<close> gives during the \<open>k\<close>-th run of the effect.
\<close>

definition typingEffect :: "(nat \<Rightarrow> rat) \<Rightarrow> tw_props \<Rightarrow> tw_state \<Rightarrow> tw_state" where
  "typingEffect rnd p s0 =
     (let s = s0\<lparr>effectRuns := Suc (effectRuns s0)\<rparr> in
      if currentIndex s < length (textProp p) then
        let currentChar = textProp p ! currentIndex s;
            typingSpeed = getTypingSpeed (speed p) (rnd (effectRuns s0)) currentChar
                            (currentIndex s) (textProp p);
            ms = (if currentIndex s = 0 then delay p else typingSpeed)
        in s\<lparr>pendingTimeout := Some \<lparr>to_index = currentIndex s, to_char = currentChar,
                                      to_onStart = onStart p, to_ms = ms\<rparr>,
              trace := trace s @ [SetTimeout ms]\<rparr>
      else if currentIndex s = length (textProp p) then
        s\<lparr>isTyping := False, trace := trace s @ callback OnComplete (onComplete p)\<rparr>
      else s)"

text \<open>Its cleanup, \<open>clearTimeout(timeoutId)\<close>.\<close>

definition typingCleanup :: "tw_state \<Rightarrow> tw_state" where
  "typingCleanup s = s\<lparr>pendingTimeout := None\<rparr>"

text \<open>The body of the timeout.\<close>

definition timeoutBody :: "tw_timeout \<Rightarrow> tw_state \<Rightarrow> tw_state" where
  "timeoutBody t s =
     (let s1 = (if to_index t = 0
                then s\<lparr>isTyping := True, trace := trace s @ callback OnStart (to_onStart t)\<rparr>
                else s);
          d = displayedText s1 @ [to_char t]
      in s1\<lparr>displayedText := d, currentIndex := currentIndex s1 + 1,
             trace := trace s1 @ [Displayed d]\<rparr>)"

text \<open>The second effect (dependency \<open>text\<close>): reset.\<close>

definition resetEffect :: "tw_state \<Rightarrow> tw_state" where
  "resetEffect s =
     s\<lparr>displayedText := [], currentIndex := 0, isTyping := False,
       trace := trace s @ (if displayedText s = [] then [] else [Displayed []])\<rparr>"

text \<open>
  Mount: first render with the initial state, then both effects in order.  The reset
  leaves the initial state as it is, so no second render follows.
\<close>

definition mount :: "(nat \<Rightarrow> rat) \<Rightarrow> tw_props \<Rightarrow> tw_state" where
  "mount rnd p =
     resetEffect (typingEffect rnd p
       \<lparr>displayedText = [], currentIndex = 0, isTyping = False, pendingTimeout = None,
        effectRuns = 0, trace = [Displayed []]\<rparr>)"

text \<open>
  The pending timeout fires: its body runs, \<open>currentIndex\<close> has changed, so the next
  render cleans up and re-runs the first effect.  Without a pending timeout nothing happens.
\<close>

definition fire :: "(nat \<Rightarrow> rat) \<Rightarrow> tw_props \<Rightarrow> tw_state \<Rightarrow> tw_state" where
  "fire rnd p s =
     (case pendingTimeout s of
        None \<Rightarrow> s
      | Some t \<Rightarrow> typingEffect rnd p (typingCleanup (timeoutBody t (s\<lparr>pendingTimeout := None\<rparr>))))"

text \<open>
  The parent renders the component with new props \<open>p'\<close> (old props \<open>p\<close>).  Effects whose
  dependencies changed run in declaration order, the first one still with the
  \<open>currentIndex\<close> of this render; when the reset then changes \<open>currentIndex\<close>, one more
  render follows in which the first effect is cleaned up and run again.
\<close>

definition typingDepsChanged :: "tw_props \<Rightarrow> tw_props \<Rightarrow> bool" where
  "typingDepsChanged p p' =
     (textProp p' \<noteq> textProp p \<or> speed p' \<noteq> speed p \<or> delay p' \<noteq> delay p
      \<or> onComplete p' \<noteq> onComplete p \<or> onStart p' \<noteq> onStart p)"

definition rerender :: "(nat \<Rightarrow> rat) \<Rightarrow> tw_props \<Rightarrow> tw_props \<Rightarrow> tw_state \<Rightarrow> tw_state" where
  "rerender rnd p p' s =
     (let s1 = (if typingDepsChanged p p' then typingEffect rnd p' (typingCleanup s) else s);
          s2 = (if textProp p' \<noteq> textProp p then resetEffect s1 else s1)
      in if currentIndex s2 \<noteq> currentIndex s1
         then typingEffect rnd p' (typingCleanup s2) else s2)"

text \<open>A reveal with fixed props: mount, then \<open>n\<close> timeouts.\<close>

definition reveal :: "(nat \<Rightarrow> rat) \<Rightarrow> tw_props \<Rightarrow> nat \<Rightarrow> tw_state" where
  "reveal rnd p n = ((fire rnd p) ^^ n) (mount rnd p)"

definition shown :: "tw_event list \<Rightarrow> jsstring list" where
  "shown tr = concat (map (\<lambda>e. case e of Displayed d \<Rightarrow> [d] | _ \<Rightarrow> []) tr)"

definition isOnComplete :: "tw_event \<Rightarrow> bool" where
  "isOnComplete e = (case e of OnComplete f \<Rightarrow> True | _ \<Rightarrow> False)"

definition isOnStart :: "tw_event \<Rightarrow> bool" where
  "isOnStart e = (case e of OnStart f \<Rightarrow> True | _ \<Rightarrow> False)"

definition isSetTimeout :: "tw_event \<Rightarrow> bool" where
  "isSetTimeout e = (case e of SetTimeout d \<Rightarrow> True | _ \<Rightarrow> False)"


section \<open>Conversation playback driver (VoiceChatWindow.tsx)\<close>

datatype speaker = Customer | AI

datatype call_status = Connected | Speaking | Listening | Processing

text \<open>An entry of \<open>conversationFlow\<close>; \<open>sentiment\<close> is absent on the ai entries.\<close>

record flow_entry =
  f_speaker :: speaker
  f_message :: jsstring
  f_sentiment :: "sentiment_label option"
  f_delay :: rat

text \<open>Message ids: \<open>message-${Date.now()}\<close> and \<open>manual-${Date.now()}\<close>.\<close>

datatype message_id = MessageId rat | ManualId rat

text \<open>The interface \<open>Message\<close>; an optional field that is absent is \<open>None\<close>.\<close>

record message =
  m_id :: message_id
  m_speaker :: speaker
  m_message :: jsstring
  m_timestamp :: rat
  m_sentiment :: "sentiment_label option"
  m_isNew :: "bool option"
  m_showWaveformFirst :: "bool option"
  m_messageVisible :: "bool option"
  m_isAnimating :: "bool option"

text \<open>
  The four closures the conversation effect hands to \<open>setTimeout\<close>, each with the
  variables of the effect it can see: the \<open>currentMessageIndex\<close> and \<open>currentMsg\<close> of
  the render, and for the inner ones the \<open>messageId\<close>.
\<close>

datatype timer_action =
    ProcessMessage nat flow_entry
  | RevealStart nat flow_entry message_id
  | ShowContent nat flow_entry message_id
  | Complete nat

text \<open>The phases a turn goes through, as observed when the closure of each one runs.\<close>

datatype phase_event =
    PendingReveal nat
  | RevealStarted nat
  | ContentVisible nat
  | Completed nat

text \<open>
  The component state, a virtual clock in milliseconds, and the browser's table of pending
  timeouts (handle, due time, closure).  \<open>effectTimeout\<close> is the \<open>timeoutId\<close> held by the
  cleanup of the last run of the conversation effect; \<open>phaseLog\<close> only records.
\<close>

record window =
  callStatus :: call_status
  isMuted :: bool
  messages :: "message list"
  currentMessageIndex :: nat
  windowIsTyping :: bool
  currentSpeaker :: "speaker option"
  inputMessage :: jsstring
  clock :: rat
  timers :: "(nat \<times> rat \<times> timer_action) list"
  nextHandle :: nat
  effectTimeout :: "nat option"
  phaseLog :: "phase_event list"

text \<open>\<open>setTimeout(f, d)\<close>: a negative delay counts as zero.\<close>

definition setTimeout :: "rat \<Rightarrow> timer_action \<Rightarrow> window \<Rightarrow> window" where
  "setTimeout d a s =
     s\<lparr>timers := timers s @ [(nextHandle s, clock s + max 0 d, a)],
       nextHandle := Suc (nextHandle s)\<rparr>"

definition clearTimeout :: "nat \<Rightarrow> window \<Rightarrow> window" where
  "clearTimeout h s = s\<lparr>timers := filter (\<lambda>t. fst t \<noteq> h) (timers s)\<rparr>"

text \<open>The timeout that fires next: the least due time, the earlier registration on a tie.\<close>

fun earliest :: "(nat \<times> rat \<times> timer_action) list \<Rightarrow> (nat \<times> rat \<times> timer_action) option" where
  "earliest [] = None"
| "earliest (t # ts) =
     (case earliest ts of
        None \<Rightarrow> Some t
      | Some u \<Rightarrow> if fst (snd u) < fst (snd t) then Some u else Some t)"

definition addWaveformMessage :: "speaker \<Rightarrow> window \<Rightarrow> message_id \<times> window" where
  "addWaveformMessage sp s =
     (let messageId = MessageId (clock s) in
      (messageId,
       s\<lparr>messages := messages s @
            [\<lparr>m_id = messageId, m_speaker = sp, m_message = [], m_timestamp = clock s,
              m_sentiment = None, m_isNew = Some True, m_showWaveformFirst = Some True,
              m_messageVisible = Some False, m_isAnimating = None\<rparr>]\<rparr>))"

definition updateMessage ::
    "message_id \<Rightarrow> jsstring \<Rightarrow> sentiment_label option \<Rightarrow> window \<Rightarrow> window" where
  "updateMessage i msg sent s =
     s\<lparr>messages := map (\<lambda>m. if m_id m = i
                               then m\<lparr>m_message := msg, m_sentiment := sent,
                                      m_isNew := Some False, m_showWaveformFirst := Some False\<rparr>
                               else m) (messages s)\<rparr>"

definition showMessageContent :: "message_id \<Rightarrow> window \<Rightarrow> window" where
  "showMessageContent i s =
     s\<lparr>messages := map (\<lambda>m. if m_id m = i
                               then m\<lparr>m_messageVisible := Some True, m_isAnimating := Some False\<rparr>
                               else m) (messages s)\<rparr>"

definition startMessageAnimation :: "message_id \<Rightarrow> window \<Rightarrow> window" where
  "startMessageAnimation i s =
     s\<lparr>messages := map (\<lambda>m. if m_id m = i then m\<lparr>m_isAnimating := Some True\<rparr> else m)
                      (messages s)\<rparr>"

definition completeMessageAnimation :: "message_id \<Rightarrow> window \<Rightarrow> window" where
  "completeMessageAnimation i s =
     s\<lparr>messages := map (\<lambda>m. if m_id m = i then m\<lparr>m_isAnimating := Some False\<rparr> else m)
                      (messages s)\<rparr>"

text \<open>
  The conversation effect (dependency \<open>currentMessageIndex\<close>; the callbacks in the list
  never change) and its cleanup.  Past the end of the script it returns at once and
  registers no cleanup.
\<close>

definition conversationEffect :: "flow_entry list \<Rightarrow> window \<Rightarrow> window" where
  "conversationEffect flow s =
     (if currentMessageIndex s \<ge> length flow then s\<lparr>effectTimeout := None\<rparr>
      else
        let currentMsg = flow ! currentMessageIndex s in
        (setTimeout (f_delay currentMsg) (ProcessMessage (currentMessageIndex s) currentMsg) s)
          \<lparr>effectTimeout := Some (nextHandle s)\<rparr>)"

definition conversationCleanup :: "window \<Rightarrow> window" where
  "conversationCleanup s =
     (case effectTimeout s of None \<Rightarrow> s | Some h \<Rightarrow> clearTimeout h s)"

text \<open>\<open>processMessage\<close> and the three nested timeout bodies.\<close>

definition processMessage :: "nat \<Rightarrow> flow_entry \<Rightarrow> window \<Rightarrow> window" where
  "processMessage k currentMsg s =
     (let s1 = (if f_speaker currentMsg = Customer
                then s\<lparr>callStatus := Listening, currentSpeaker := Some Customer\<rparr>
                else s\<lparr>callStatus := Processing, currentSpeaker := None\<rparr>);
          (messageId, s2) = addWaveformMessage (f_speaker currentMsg) s1;
          s3 = s2\<lparr>windowIsTyping := True, phaseLog := phaseLog s2 @ [PendingReveal k]\<rparr>;
          waveformDuration = (if f_speaker currentMsg = AI then 1500 else 1200)
      in setTimeout waveformDuration (RevealStart k currentMsg messageId) s3)"

definition revealStart :: "nat \<Rightarrow> flow_entry \<Rightarrow> message_id \<Rightarrow> window \<Rightarrow> window" where
  "revealStart k currentMsg messageId s =
     (let s1 = s\<lparr>callStatus := Speaking, currentSpeaker := Some (f_speaker currentMsg),
                 windowIsTyping := False, phaseLog := phaseLog s @ [RevealStarted k]\<rparr>;
          s2 = updateMessage messageId (f_message currentMsg) (f_sentiment currentMsg) s1
      in setTimeout 600 (ShowContent k currentMsg messageId) s2)"

definition showContent :: "nat \<Rightarrow> flow_entry \<Rightarrow> message_id \<Rightarrow> window \<Rightarrow> window" where
  "showContent k currentMsg messageId s =
     (let s1 = (showMessageContent messageId s)\<lparr>phaseLog := phaseLog s @ [ContentVisible k]\<rparr>;
          baseSpeed = (if f_speaker currentMsg = AI then 40 else 60);
          avgTypingDuration = of_nat (length (f_message currentMsg)) * baseSpeed * (12 / 10);
          typingDuration = avgTypingDuration + 300
      in setTimeout (typingDuration + 500) (Complete k) s1)"

text \<open>
  The last timeout body; it changes \<open>currentMessageIndex\<close>, so the render that follows
  cleans up the conversation effect and runs it again.
\<close>

definition complete :: "flow_entry list \<Rightarrow> nat \<Rightarrow> window \<Rightarrow> window" where
  "complete flow k s =
     conversationEffect flow (conversationCleanup
       (s\<lparr>callStatus := Connected, currentSpeaker := None,
          currentMessageIndex := currentMessageIndex s + 1,
          phaseLog := phaseLog s @ [Completed k]\<rparr>))"

definition runAction :: "flow_entry list \<Rightarrow> timer_action \<Rightarrow> window \<Rightarrow> window" where
  "runAction flow a s =
     (case a of
        ProcessMessage k m \<Rightarrow> processMessage k m s
      | RevealStart k m i \<Rightarrow> revealStart k m i s
      | ShowContent k m i \<Rightarrow> showContent k m i s
      | Complete k \<Rightarrow> complete flow k s)"

text \<open>The next timeout fires: the clock reaches its due time and its closure runs.\<close>

definition fireTimer :: "flow_entry list \<Rightarrow> window \<Rightarrow> window" where
  "fireTimer flow s =
     (case earliest (timers s) of
        None \<Rightarrow> s
      | Some (h, due, a) \<Rightarrow>
          runAction flow a
            (s\<lparr>clock := max (clock s) due,
               timers := filter (\<lambda>t. fst t \<noteq> h) (timers s)\<rparr>))"

text \<open>\<open>handleSendMessage\<close>; \<open>inputMessage.trim()\<close> is truthy when it is not empty.\<close>

definition handleSendMessage :: "window \<Rightarrow> window" where
  "handleSendMessage s =
     (if trim (inputMessage s) \<noteq> [] then
        let newMessage =
          \<lparr>m_id = ManualId (clock s), m_speaker = Customer, m_message = trim (inputMessage s),
           m_timestamp = clock s, m_sentiment = Some Neutral, m_isNew = None,
           m_showWaveformFirst = None, m_messageVisible = Some True,
           m_isAnimating = Some False\<rparr>
        in s\<lparr>messages := messages s @ [newMessage], inputMessage := []\<rparr>
      else s)"

text \<open>
  The ways the user reaches the component.  The input field's \<open>onChange\<close> stores the
  typed value, and its \<open>onKeyPress\<close> is \<open>handleKeyPress\<close>, which for Enter without Shift
  calls \<open>handleSendMessage\<close>; neither handler reads the call status.  The input is rendered
  with \<open>disabled = (callStatus === 'Processing')\<close> and the button with
  \<open>disabled = (!inputMessage.trim() || callStatus === 'Processing')\<close>.  A click on the
  disabled button reaches no handler; on the input nothing in the component withholds a
  change or a key press, so these two events run their handlers in every state.
\<close>

definition inputDisabled :: "window \<Rightarrow> bool" where
  "inputDisabled s = (callStatus s = Processing)"

definition buttonDisabled :: "window \<Rightarrow> bool" where
  "buttonDisabled s = (trim (inputMessage s) = [] \<or> callStatus s = Processing)"

definition changeInput :: "jsstring \<Rightarrow> window \<Rightarrow> window" where
  "changeInput v s = s\<lparr>inputMessage := v\<rparr>"

definition clickSend :: "window \<Rightarrow> window" where
  "clickSend s = (if buttonDisabled s then s else handleSendMessage s)"

definition pressEnter :: "window \<Rightarrow> window" where
  "pressEnter s = handleSendMessage s"

definition toggleMute :: "window \<Rightarrow> window" where
  "toggleMute s = s\<lparr>isMuted := \<not> isMuted s\<rparr>"

text \<open>Time passes up to \<open>t\<close> without a timeout firing.\<close>

definition wait :: "rat \<Rightarrow> window \<Rightarrow> window" where
  "wait t s =
     (if clock s \<le> t \<and> (\<forall>x \<in> set (timers s). t \<le> fst (snd x)) then s\<lparr>clock := t\<rparr> else s)"

text \<open>
  Everything that can happen to the window.  \<open>startMessageAnimation\<close> and
  \<open>completeMessageAnimation\<close> are handed to \<open>TypewriterText\<close> only, and the window renders
  that component only for a message with \<open>messageVisible\<close> and \<open>isAnimating\<close> both true;
  \<open>showMessageContent\<close> and \<open>handleSendMessage\<close> set \<open>isAnimating\<close> to false, so the window
  shows the finished text at once and neither callback is ever called.
\<close>

datatype window_event =
    FireTimer
  | Wait rat
  | ChangeInput jsstring
  | ClickSend
  | PressEnter
  | ToggleMute

definition applyEvent :: "flow_entry list \<Rightarrow> window_event \<Rightarrow> window \<Rightarrow> window" where
  "applyEvent flow e s =
     (case e of
        FireTimer \<Rightarrow> fireTimer flow s
      | Wait t \<Rightarrow> wait t s
      | ChangeInput v \<Rightarrow> changeInput v s
      | ClickSend \<Rightarrow> clickSend s
      | PressEnter \<Rightarrow> pressEnter s
      | ToggleMute \<Rightarrow> toggleMute s)"

text \<open>Mount: the initial state, then the conversation effect.\<close>

definition initialWindow :: "flow_entry list \<Rightarrow> window" where
  "initialWindow flow =
     conversationEffect flow
       \<lparr>callStatus = Connected, isMuted = False, messages = [], currentMessageIndex = 0,
        windowIsTyping = False, currentSpeaker = None, inputMessage = [], clock = 0,
        timers = [], nextHandle = 0, effectTimeout = None, phaseLog = []\<rparr>"

definition run :: "flow_entry list \<Rightarrow> window_event list \<Rightarrow> window" where
  "run flow evs = fold (applyEvent flow) evs (initialWindow flow)"

text \<open>A message is in flight while it shows the waveform only or is being typed.\<close>

definition inFlight :: "message \<Rightarrow> bool" where
  "inFlight m = (m_showWaveformFirst m = Some True \<or> m_isAnimating m = Some True)"

text \<open>The order of phases when every turn finishes before the next one starts.\<close>

definition turnPhases :: "nat \<Rightarrow> phase_event list" where
  "turnPhases k = [PendingReveal k, RevealStarted k, ContentVisible k, Completed k]"

definition canonicalPhases :: "nat \<Rightarrow> phase_event list" where
  "canonicalPhases n = concat (map turnPhases [0..<n])"

section \<open>Auxiliary notions used in the statements\<close>

text \<open>The accumulator of the rebuild: the set holds exactly the names listed so far, and
  no name is listed twice.\<close>

definition emotionInv :: "string set \<times> emotion list \<Rightarrow> bool" where
  "emotionInv acc = (fst acc = set (map name (snd acc)) \<and> distinct (map name (snd acc)))"

text \<open>A snapshot as the script authors them: at most four tags, none empty, none twice.\<close>

definition wellAuthored :: "snapshot \<Rightarrow> bool" where
  "wellAuthored pt = (distinct (sp_emotions pt) \<and> [] \<notin> set (sp_emotions pt)
                       \<and> length (sp_emotions pt) \<le> 4)"

text \<open>The inputs for which a submission is to be rejected: the input is empty or consists
  of white space only, or the call status is \<open>Processing\<close>.\<close>

definition submitRejected :: "window \<Rightarrow> bool" where
  "submitRejected s =
     (inputMessage s = [] \<or> (\<forall>c \<in> set (inputMessage s). isWhiteSpace c)
      \<or> callStatus s = Processing)"

text \<open>A window with nothing scheduled, a given input text and a given call status.\<close>

definition idleWindow :: "jsstring \<Rightarrow> call_status \<Rightarrow> window" where
  "idleWindow v st =
     \<lparr>callStatus = st, isMuted = False, messages = [], currentMessageIndex = 0,
      windowIsTyping = False, currentSpeaker = None, inputMessage = v, clock = 0,
      timers = [], nextHandle = 0, effectTimeout = None, phaseLog = []\<rparr>"

text \<open>
  The classes of code units the delay policy distinguishes, and the word before a position:
  the code units after the last space of the text before that position.
\<close>

definition space :: jschar where "space = ch CHR '' ''"

definition isCommonLetter :: "jschar \<Rightarrow> bool" where
  "isCommonLetter c = (c \<in> set (js ''etaoinshr'') \<or> c \<in> set (js ''ETAOINSHR''))"

definition isOtherSymbol :: "jschar \<Rightarrow> bool" where
  "isOtherSymbol c =
     (\<not> isAsciiLetter c \<and> \<not> isDigit c \<and> \<not> isWhiteSpace c \<and> c \<notin> set (js ''.!?,;:''))"

definition isPlain :: "jschar \<Rightarrow> bool" where
  "isPlain c = ((isAsciiLetter c \<and> \<not> isCommonLetter c) \<or> (isWhiteSpace c \<and> c \<noteq> space))"

definition wordBefore :: "nat \<Rightarrow> jsstring \<Rightarrow> jsstring" where
  "wordBefore i T = rev (takeWhile (\<lambda>x. x \<noteq> space) (rev (take i T)))"

text \<open>The local \<open>variation\<close> of \<open>getTypingSpeed\<close> as a function of the random draw; props as
  the chat window passes them; the state of a component that has just been created.\<close>

definition variation :: "rat \<Rightarrow> rat" where
  "variation r = (r - 1 / 2) * (1 / 2)"

definition demoProps :: "jsstring \<Rightarrow> tw_props" where
  "demoProps T = \<lparr>textProp = T, speed = 40, delay = 300, onComplete = Some 1, onStart = Some 2\<rparr>"

definition freshState :: tw_state where
  "freshState = \<lparr>displayedText = [], currentIndex = 0, isTyping = False, pendingTimeout = None,
        effectRuns = 0, trace = [Displayed []]\<rparr>"

text \<open>
  What a reveal with fixed props is expected to do: the delay of the timeout registered at
  position \<open>n\<close>, what the effect adds to the trace after the render at position \<open>n\<close>,
  the whole trace after \<open>n\<close> timeouts, and the timeout pending then.
\<close>

definition scheduledMs :: "(nat \<Rightarrow> rat) \<Rightarrow> tw_props \<Rightarrow> nat \<Rightarrow> rat" where
  "scheduledMs rnd p n =
     (if n = 0 then delay p
      else getTypingSpeed (speed p) (rnd n) (textProp p ! n) n (textProp p))"

definition afterCommit :: "(nat \<Rightarrow> rat) \<Rightarrow> tw_props \<Rightarrow> nat \<Rightarrow> tw_event list" where
  "afterCommit rnd p n =
     (if n < length (textProp p) then [SetTimeout (scheduledMs rnd p n)]
      else callback OnComplete (onComplete p))"

fun expectedTrace :: "(nat \<Rightarrow> rat) \<Rightarrow> tw_props \<Rightarrow> nat \<Rightarrow> tw_event list" where
  "expectedTrace rnd p 0 = Displayed [] # afterCommit rnd p 0"
| "expectedTrace rnd p (Suc n) =
     expectedTrace rnd p n @ (if n = 0 then callback OnStart (onStart p) else [])
       @ [Displayed (take (Suc n) (textProp p))] @ afterCommit rnd p (Suc n)"

definition expectedTimeout :: "(nat \<Rightarrow> rat) \<Rightarrow> tw_props \<Rightarrow> nat \<Rightarrow> tw_timeout option" where
  "expectedTimeout rnd p n =
     (if n < length (textProp p)
      then Some \<lparr>to_index = n, to_char = textProp p ! n, to_onStart = onStart p,
                 to_ms = scheduledMs rnd p n\<rparr>
      else None)"

text \<open>
  For a change of text: what the first effect adds to the trace when it runs with the new
  text but the index of the abandoned reveal, and the timeout of a reveal that starts anew.
\<close>

definition staleRun :: "(nat \<Rightarrow> rat) \<Rightarrow> tw_props \<Rightarrow> tw_state \<Rightarrow> tw_event list" where
  "staleRun rnd p' s =
     (if currentIndex s < length (textProp p')
      then [SetTimeout (if currentIndex s = 0 then delay p'
                        else getTypingSpeed (speed p') (rnd (effectRuns s))
                               (textProp p' ! currentIndex s) (currentIndex s) (textProp p'))]
      else if currentIndex s = length (textProp p') then callback OnComplete (onComplete p')
      else [])"

definition freshTimeout :: "tw_props \<Rightarrow> tw_timeout option" where
  "freshTimeout p' =
     (if textProp p' = [] then None
      else Some \<lparr>to_index = 0, to_char = textProp p' ! 0, to_onStart = onStart p',
                 to_ms = delay p'\<rparr>)"

text \<open>A state in the middle of revealing the text of \<open>p\<close>, with \<open>i\<close> code units shown.\<close>

definition revealingAt :: "tw_props \<Rightarrow> nat \<Rightarrow> tw_state \<Rightarrow> bool" where
  "revealingAt p i s =
     (i \<le> length (textProp p) \<and> displayedText s = take i (textProp p) \<and> currentIndex s = i
      \<and> (case pendingTimeout s of
             None \<Rightarrow> i = length (textProp p)
           | Some t \<Rightarrow> i < length (textProp p) \<and> to_index t = i \<and> to_char t = textProp p ! i))"

text \<open>
  The stages of the playback driver.  A window is quiet when no message is in flight.  In
  each stage exactly one timeout is pending, the one that leads to the next stage, and the
  phase log is the canonical order cut off at the stage reached; when the script is
  exhausted no timeout is pending.
\<close>

definition quiet :: "window \<Rightarrow> bool" where
  "quiet s = (\<forall>m \<in> set (messages s). \<not> inFlight m)"

definition noAnimating :: "window \<Rightarrow> bool" where
  "noAnimating s = (\<forall>m \<in> set (messages s). m_isAnimating m \<noteq> Some True)"

definition scheduled :: "flow_entry list \<Rightarrow> nat \<Rightarrow> window \<Rightarrow> bool" where
  "scheduled flow k s =
     (k < length flow \<and> currentMessageIndex s = k \<and> callStatus s = Connected \<and> quiet s
      \<and> noAnimating s
      \<and> phaseLog s = take (4 * k) (canonicalPhases (length flow))
      \<and> (\<exists>h due. timers s = [(h, due, ProcessMessage k (flow ! k))]))"

definition pendingReveal :: "flow_entry list \<Rightarrow> nat \<Rightarrow> window \<Rightarrow> bool" where
  "pendingReveal flow k s =
     (k < length flow \<and> currentMessageIndex s = k \<and> noAnimating s
      \<and> callStatus s = (if f_speaker (flow ! k) = Customer then Listening else Processing)
      \<and> phaseLog s = take (4 * k + 1) (canonicalPhases (length flow))
      \<and> length (filter inFlight (messages s)) \<le> 1
      \<and> (\<exists>h due mid. timers s = [(h, due, RevealStart k (flow ! k) mid)]
            \<and> (\<forall>m \<in> set (messages s). inFlight m \<longrightarrow> m_id m = mid)))"

definition speaking :: "flow_entry list \<Rightarrow> nat \<Rightarrow> window \<Rightarrow> bool" where
  "speaking flow k s =
     (k < length flow \<and> currentMessageIndex s = k \<and> callStatus s = Speaking \<and> quiet s
      \<and> noAnimating s
      \<and> phaseLog s = take (4 * k + 2) (canonicalPhases (length flow))
      \<and> (\<exists>h due mid. timers s = [(h, due, ShowContent k (flow ! k) mid)]))"

definition contentShown :: "flow_entry list \<Rightarrow> nat \<Rightarrow> window \<Rightarrow> bool" where
  "contentShown flow k s =
     (k < length flow \<and> currentMessageIndex s = k \<and> callStatus s = Speaking \<and> quiet s
      \<and> noAnimating s
      \<and> phaseLog s = take (4 * k + 3) (canonicalPhases (length flow))
      \<and> (\<exists>h due. timers s = [(h, due, Complete k)]))"

definition finished :: "flow_entry list \<Rightarrow> window \<Rightarrow> bool" where
  "finished flow s =
     (currentMessageIndex s = length flow \<and> callStatus s = Connected \<and> quiet s
      \<and> noAnimating s
      \<and> phaseLog s = canonicalPhases (length flow) \<and> timers s = [])"

definition driverInv :: "flow_entry list \<Rightarrow> window \<Rightarrow> bool" where
  "driverInv flow s =
     (finished flow s
      \<or> (\<exists>k. scheduled flow k s \<or> pendingReveal flow k s \<or> speaking flow k s
               \<or> contentShown flow k s))"

text \<open>The message \<open>addWaveformMessage\<close> appends, and the two computed delays of a turn.\<close>

definition waveformMessage :: "speaker \<Rightarrow> rat \<Rightarrow> message" where
  "waveformMessage sp t =
     \<lparr>m_id = MessageId t, m_speaker = sp, m_message = [], m_timestamp = t,
      m_sentiment = None, m_isNew = Some True, m_showWaveformFirst = Some True,
      m_messageVisible = Some False, m_isAnimating = None\<rparr>"

definition waveformDuration :: "speaker \<Rightarrow> rat" where
  "waveformDuration sp = (if sp = AI then 1500 else 1200)"

definition completionDelay :: "flow_entry \<Rightarrow> rat" where
  "completionDelay m =
     of_nat (length (f_message m)) * (if f_speaker m = AI then 40 else 60) * (12 / 10)
       + 300 + 500"

text \<open>What an event of the user may change: it leaves call status, turn index, timeouts and
  phase log alone and appends at most one message, which is not in flight.\<close>

definition userFrame :: "window \<Rightarrow> window \<Rightarrow> bool" where
  "userFrame s s' =
     (callStatus s' = callStatus s \<and> currentMessageIndex s' = currentMessageIndex s
      \<and> timers s' = timers s \<and> phaseLog s' = phaseLog s
      \<and> (messages s' = messages s
           \<or> (\<exists>m. messages s' = messages s @ [m] \<and> \<not> inFlight m
                    \<and> m_isAnimating m \<noteq> Some True)))"

text \<open>A script of two turns, an ai greeting and a customer reply.\<close>

definition demoFlow :: "flow_entry list" where
  "demoFlow =
     [\<lparr>f_speaker = AI, f_message = js ''Hi'', f_sentiment = None, f_delay = 1000\<rparr>,
      \<lparr>f_speaker = Customer, f_message = js ''Hello'', f_sentiment = Some Negative,
        f_delay = 3000\<rparr>]"

section \<open>Properties of the sentiment tracker\<close>

lemma tick_index:
  "currentProgressionIndex (tick prog s) =
     (if int (currentProgressionIndex s) < int (length prog) - 1
      then currentProgressionIndex s + 1 else currentProgressionIndex s)"
  by (simp add: tick_def tickBody_def Let_def)

lemma tick_clock:
  "panelClock (tick prog s) = intervalDue s"
  "intervalDue (tick prog s) = intervalDue s + 4000"
  by (simp_all add: tick_def tickBody_def Let_def)

lemma tick_view_last:
  "\<not> int (currentProgressionIndex s) < int (length prog) - 1 \<Longrightarrow>
   panelView (tick prog s) = panelView s"
  by (simp add: tick_def tickBody_def panelView_def)

lemma ticks_Suc: "ticks prog (Suc n) = tick prog (ticks prog n)"
  by (simp add: ticks_def)

lemma ticks_0: "ticks prog 0 = initialPanel prog"
  by (simp add: ticks_def)

lemma ticks_index: "currentProgressionIndex (ticks prog n) = min n (length prog - 1)"
proof (induction n)
  case 0
  show ?case by (simp add: ticks_0 initialPanel_def)
next
  case (Suc n)
  show ?case unfolding ticks_Suc tick_index Suc by auto
qed

lemma ticks_clock:
  "panelClock (ticks prog n) = 4000 * of_nat n \<and> intervalDue (ticks prog n) = 4000 * of_nat n + 4000"
proof (induction n)
  case 0
  show ?case by (simp add: ticks_0 initialPanel_def)
next
  case (Suc n)
  then show ?case by (simp add: ticks_Suc tick_clock algebra_simps)
qed

lemma ticks_view_frozen:
  "length prog - 1 \<le> n \<Longrightarrow> panelView (ticks prog (n + k)) = panelView (ticks prog n)"
proof (induction k)
  case 0
  show ?case by simp
next
  case (Suc k)
  have "\<not> int (currentProgressionIndex (ticks prog (n + k))) < int (length prog) - 1"
    using Suc.prems by (simp add: ticks_index)
  then have "panelView (ticks prog (Suc (n + k))) = panelView (ticks prog (n + k))"
    unfolding ticks_Suc by (rule tick_view_last)
  with Suc show ?case by simp
qed

text \<open>
  Claim C8.  After \<open>n\<close> firings of the 4000 ms interval the clock reads \<open>4000 n\<close> and the
  cursor is \<open>min n (length - 1)\<close>: it goes up by exactly one per firing while it is below the
  last snapshot, never goes down, stays inside the script, and once it is at the last
  snapshot every later firing leaves the cursor, the current sentiment, the confidence, the
  emotion list and the trailing history as they are.
\<close>

theorem sentiment_cursor_advances_then_freezes:
  "currentProgressionIndex (ticks prog n) = min n (length prog - 1)
   \<and> panelClock (ticks prog n) = 4000 * of_nat n
   \<and> (Suc (currentProgressionIndex (ticks prog n)) < length prog \<longrightarrow>
        currentProgressionIndex (ticks prog (Suc n)) = Suc (currentProgressionIndex (ticks prog n)))
   \<and> (m \<le> n \<longrightarrow>
        currentProgressionIndex (ticks prog m) \<le> currentProgressionIndex (ticks prog n))
   \<and> (prog \<noteq> [] \<longrightarrow> currentProgressionIndex (ticks prog n) < length prog)
   \<and> (currentProgressionIndex (ticks prog n) = length prog - 1 \<longrightarrow>
        panelView (ticks prog (n + k)) = panelView (ticks prog n))"
proof -
  have a: "currentProgressionIndex (ticks prog n) = min n (length prog - 1)"
    by (rule ticks_index)
  have b: "panelClock (ticks prog n) = 4000 * of_nat n"
    using ticks_clock by blast
  have c: "Suc (currentProgressionIndex (ticks prog n)) < length prog \<longrightarrow>
        currentProgressionIndex (ticks prog (Suc n)) = Suc (currentProgressionIndex (ticks prog n))"
    by (auto simp: ticks_index)
  have d: "m \<le> n \<longrightarrow>
        currentProgressionIndex (ticks prog m) \<le> currentProgressionIndex (ticks prog n)"
    by (auto simp: ticks_index)
  have e: "prog \<noteq> [] \<longrightarrow> currentProgressionIndex (ticks prog n) < length prog"
    by (cases prog) (auto simp: ticks_index)
  have f: "currentProgressionIndex (ticks prog n) = length prog - 1 \<longrightarrow>
        panelView (ticks prog (n + k)) = panelView (ticks prog n)"
  proof (intro impI)
    assume "currentProgressionIndex (ticks prog n) = length prog - 1"
    then have "length prog - 1 \<le> n" by (simp add: ticks_index min_def split: if_splits)
    then show "panelView (ticks prog (n + k)) = panelView (ticks prog n)"
      by (rule ticks_view_frozen)
  qed
  from a b c d e f show ?thesis by blast
qed

lemma len_prog: "length sentimentProgression = 11" by (simp add: sentimentProgression_def)

theorem sentiment_cursor_witness:
  "currentProgressionIndex (ticks sentimentProgression 3) = 3
   \<and> currentProgressionIndex (ticks sentimentProgression 4) = 4
   \<and> panelClock (ticks sentimentProgression 3) = 12000
   \<and> currentProgressionIndex (ticks sentimentProgression 12) = 10
   \<and> panelView (ticks sentimentProgression (12 + 5)) = panelView (ticks sentimentProgression 12)"
  using sentiment_cursor_advances_then_freezes [of sentimentProgression 3 2 0]
        sentiment_cursor_advances_then_freezes [of sentimentProgression 12 3 5]
  by (simp add: len_prog)

lemma addPointEmotion_inv: "emotionInv acc \<Longrightarrow> emotionInv (addPointEmotion e acc)"
  by (cases acc) (auto simp: emotionInv_def addPointEmotion_def)

lemma addDefaultEmotion_inv: "emotionInv acc \<Longrightarrow> emotionInv (addDefaultEmotion cur e acc)"
  by (cases acc) (auto simp: emotionInv_def addDefaultEmotion_def)

lemma fold_addPointEmotion_inv: "emotionInv acc \<Longrightarrow> emotionInv (fold addPointEmotion es acc)"
  by (induction es arbitrary: acc) (simp_all add: addPointEmotion_inv)

lemma fold_addDefaultEmotion_inv:
  "emotionInv acc \<Longrightarrow> emotionInv (fold (addDefaultEmotion cur) ds acc)"
  by (induction ds arbitrary: acc) (simp_all add: addDefaultEmotion_inv)

lemma rebuildEmotions_distinct: "distinct (map name (rebuildEmotions pt))"
proof -
  have "emotionInv ({}, [])" by (simp add: emotionInv_def)
  then have "emotionInv (fold (addDefaultEmotion (sp_currentSentiment pt)) defaultEmotions
            (fold addPointEmotion (sp_emotions pt) ({}, [])))"
    by (intro fold_addDefaultEmotion_inv fold_addPointEmotion_inv)
  then show ?thesis by (simp add: rebuildEmotions_def emotionInv_def)
qed

text \<open>Authored tags that are distinct and not empty are all taken, in order.\<close>

lemma fold_addPointEmotion_names:
  "emotionInv acc \<Longrightarrow> distinct (map name (snd acc) @ es) \<Longrightarrow> [] \<notin> set es \<Longrightarrow>
   map name (snd (fold addPointEmotion es acc)) = map name (snd acc) @ es"
proof (induction es arbitrary: acc)
  case Nil
  show ?case by simp
next
  case (Cons e es)
  obtain S xs where acc: "acc = (S, xs)" by (cases acc)
  from Cons.prems have step: "addPointEmotion e (S, xs) =
      (insert e S, xs @ [\<lparr>name = e, active = True, color = getEmotionColor e\<rparr>])"
    by (auto simp: acc addPointEmotion_def emotionInv_def)
  have "map name (snd (fold addPointEmotion es (addPointEmotion e acc)))
        = map name (snd (addPointEmotion e acc)) @ es"
  proof (rule Cons.IH)
    show "emotionInv (addPointEmotion e acc)" using Cons.prems(1) by (rule addPointEmotion_inv)
    show "distinct (map name (snd (addPointEmotion e acc)) @ es)"
      using Cons.prems(2) by (auto simp: step acc)
    show "[] \<notin> set es" using Cons.prems(3) by simp
  qed
  then show ?case by (simp add: step acc)
qed

text \<open>The default pool fills up to four entries with the names not yet present.\<close>

lemma fold_addDefaultEmotion_names:
  "emotionInv acc \<Longrightarrow> distinct ds \<Longrightarrow>
   map name (snd (fold (addDefaultEmotion cur) ds acc))
     = map name (snd acc) @ take (4 - length (snd acc)) (filter (\<lambda>d. d \<notin> fst acc) ds)"
proof (induction ds arbitrary: acc)
  case Nil
  show ?case by simp
next
  case (Cons d ds)
  obtain S xs where acc: "acc = (S, xs)" by (cases acc)
  have inv': "emotionInv (addDefaultEmotion cur d acc)"
    using Cons.prems(1) by (rule addDefaultEmotion_inv)
  have dist: "distinct ds" and dn: "d \<notin> set ds" using Cons.prems(2) by simp_all
  have IH: "map name (snd (fold (addDefaultEmotion cur) ds (addDefaultEmotion cur d acc)))
     = map name (snd (addDefaultEmotion cur d acc)) @
       take (4 - length (snd (addDefaultEmotion cur d acc)))
         (filter (\<lambda>x. x \<notin> fst (addDefaultEmotion cur d acc)) ds)"
    using inv' dist by (rule Cons.IH)
  show ?case
  proof (cases "length xs < 4 \<and> d \<notin> S")
    case True
    then have step: "addDefaultEmotion cur d (S, xs) =
        (insert d S, xs @ [\<lparr>name = d, active = (cur = Positive), color = ''bg-blue-500''\<rparr>])"
      by (simp add: addDefaultEmotion_def)
    have flt: "filter (\<lambda>x. x \<noteq> d \<and> x \<notin> S) ds = filter (\<lambda>x. x \<notin> S) ds"
      using dn by (intro filter_cong) auto
    obtain j where j: "4 - length xs = Suc j" using True by (cases "4 - length xs") auto
    then have j': "3 - length xs = j" by simp
    show ?thesis using True IH by (simp add: step acc flt j j')
  next
    case False
    then have step: "addDefaultEmotion cur d (S, xs) = (S, xs)"
      by (auto simp: addDefaultEmotion_def)
    show ?thesis using False IH by (auto simp: step acc)
  qed
qed

lemma rebuildEmotions_names:
  assumes "distinct (sp_emotions pt)" and "[] \<notin> set (sp_emotions pt)"
  shows "map name (rebuildEmotions pt) =
           sp_emotions pt @ take (4 - length (sp_emotions pt))
                               (filter (\<lambda>d. d \<notin> set (sp_emotions pt)) defaultEmotions)"
proof -
  let ?a = "fold addPointEmotion (sp_emotions pt) ({}, [])"
  have inv0: "emotionInv ({}, [])" by (simp add: emotionInv_def)
  have inv: "emotionInv ?a" using inv0 by (rule fold_addPointEmotion_inv)
  have names: "map name (snd ?a) = sp_emotions pt"
    using fold_addPointEmotion_names [OF inv0, of "sp_emotions pt"] assms by simp
  then have len: "length (snd ?a) = length (sp_emotions pt)"
    by (metis length_map)
  have fst: "fst ?a = set (sp_emotions pt)" using inv names by (simp add: emotionInv_def)
  have dd: "distinct defaultEmotions" by (simp add: defaultEmotions_def)
  show ?thesis
    unfolding rebuildEmotions_def
    using fold_addDefaultEmotion_names [OF inv dd, of "sp_currentSentiment pt"]
    by (simp add: names len fst)
qed

lemma tick_emotions:
  "emotions (tick prog s) =
     (if int (currentProgressionIndex s) < int (length prog) - 1
      then rebuildEmotions (prog ! (currentProgressionIndex s + 1)) else emotions s)"
  by (simp add: tick_def tickBody_def Let_def)

lemma ticks_emotions:
  "emotions (ticks prog n) =
     (if n = 0 \<or> length prog \<le> 1 then emotions (initialPanel prog)
      else rebuildEmotions (prog ! currentProgressionIndex (ticks prog n)))"
proof (induction n)
  case 0
  show ?case by (simp add: ticks_0)
next
  case (Suc n)
  show ?case
  proof (cases "int (currentProgressionIndex (ticks prog n)) < int (length prog) - 1")
    case True
    then show ?thesis by (simp add: ticks_Suc tick_emotions tick_index)
  next
    case False
    then show ?thesis using Suc
      by (auto simp add: ticks_Suc tick_emotions tick_index ticks_index min_def split: if_splits)
  qed
qed

text \<open>
  Claim C9.  For a script whose snapshots carry at most four distinct, non-empty tags (the
  fixed script does), the emotion list after any number of ticks has no name twice and at
  most four entries; after a tick that moved the cursor it is the snapshot's own tags
  followed by the names of the default pool, in pool order, that are not among them, cut
  off where four entries are reached.
\<close>

theorem emotion_tags_distinct_capped:
  assumes "\<forall>pt \<in> set prog. wellAuthored pt"
  shows "distinct (map name (emotions (ticks prog n)))
         \<and> length (emotions (ticks prog n)) \<le> 4
         \<and> (0 < n \<and> 1 < length prog \<longrightarrow>
              map name (emotions (ticks prog n)) =
                (let authored = sp_emotions (prog ! currentProgressionIndex (ticks prog n))
                 in authored @ take (4 - length authored)
                                 (filter (\<lambda>d. d \<notin> set authored) defaultEmotions)))"
proof (cases "0 < n \<and> 1 < length prog")
  case True
  let ?pt = "prog ! currentProgressionIndex (ticks prog n)"
  have "currentProgressionIndex (ticks prog n) < length prog"
    using True by (auto simp add: ticks_index min_def)
  then have "?pt \<in> set prog" by simp
  with assms have wa: "wellAuthored ?pt" by blast
  have em: "emotions (ticks prog n) = rebuildEmotions ?pt"
    using True by (simp add: ticks_emotions)
  have names: "map name (rebuildEmotions ?pt) =
           sp_emotions ?pt @ take (4 - length (sp_emotions ?pt))
                               (filter (\<lambda>d. d \<notin> set (sp_emotions ?pt)) defaultEmotions)"
    using wa by (intro rebuildEmotions_names) (simp_all add: wellAuthored_def)
  have "length (map name (rebuildEmotions ?pt)) \<le> 4"
    unfolding names using wa by (auto simp add: wellAuthored_def min_def)
  then have len: "length (rebuildEmotions ?pt) \<le> 4" by simp
  show ?thesis using names len rebuildEmotions_distinct [of ?pt] by (simp add: em Let_def)
next
  case False
  then have "emotions (ticks prog n) = emotions (initialPanel prog)"
    by (auto simp add: ticks_emotions)
  then show ?thesis using False by (auto simp add: initialPanel_def)
qed

lemma prog_wellAuthored: "\<forall>pt \<in> set sentimentProgression. wellAuthored pt"
  by (simp add: sentimentProgression_def wellAuthored_def)

theorem emotion_tags_witness:
  "1 < length sentimentProgression
   \<and> map name (emotions (ticks sentimentProgression 4)) =
       [''Understanding'', ''Attentive'', ''Focused'', ''Engaged'']
   \<and> distinct (map name (emotions (ticks sentimentProgression 4)))
   \<and> length (emotions (ticks sentimentProgression 4)) \<le> 4"
proof -
  have h1: "\<forall>pt \<in> set sentimentProgression. wellAuthored pt" by (rule prog_wellAuthored)
  have h3: "1 < length sentimentProgression" by (simp add: len_prog)
  have idx: "currentProgressionIndex (ticks sentimentProgression 4) = 4"
    by (simp add: ticks_index len_prog)
  show ?thesis
    using h1 h3 emotion_tags_distinct_capped [OF h1, of 4]
    by (simp add: idx Let_def) (simp add: sentimentProgression_def defaultEmotions_def)
qed

section \<open>Properties of user submissions\<close>

lemma dropWhile_all_iff: "dropWhile P xs = [] \<longleftrightarrow> (\<forall>x \<in> set xs. P x)"
  by (induction xs) auto

lemma trim_empty_iff: "trim s = [] \<longleftrightarrow> (\<forall>c \<in> set s. isWhiteSpace c)"
proof -
  have "trim s = [] \<longleftrightarrow> (\<forall>c \<in> set (dropWhile isWhiteSpace s). isWhiteSpace c)"
    by (simp add: trim_def dropWhile_all_iff)
  also have "\<dots> \<longleftrightarrow> (\<forall>c \<in> set s. isWhiteSpace c)"
  proof
    assume a: "\<forall>c \<in> set (dropWhile isWhiteSpace s). isWhiteSpace c"
    have "dropWhile isWhiteSpace s = []"
    proof (rule ccontr)
      assume "dropWhile isWhiteSpace s \<noteq> []"
      then have "\<not> isWhiteSpace (hd (dropWhile isWhiteSpace s))"
        by (rule hd_dropWhile)
      moreover have "hd (dropWhile isWhiteSpace s) \<in> set (dropWhile isWhiteSpace s)"
        using \<open>dropWhile isWhiteSpace s \<noteq> []\<close> by simp
      ultimately show False using a by blast
    qed
    then show "\<forall>c \<in> set s. isWhiteSpace c" by (simp add: dropWhile_all_iff)
  next
    assume "\<forall>c \<in> set s. isWhiteSpace c"
    then show "\<forall>c \<in> set (dropWhile isWhiteSpace s). isWhiteSpace c"
      using set_dropWhileD by fastforce
  qed
  finally show ?thesis .
qed

lemma handleSendMessage_accept:
  "trim (inputMessage s) \<noteq> [] \<Longrightarrow>
   handleSendMessage s =
     s\<lparr>messages := messages s @
          [\<lparr>m_id = ManualId (clock s), m_speaker = Customer, m_message = trim (inputMessage s),
            m_timestamp = clock s, m_sentiment = Some Neutral, m_isNew = None,
            m_showWaveformFirst = None, m_messageVisible = Some True,
            m_isAnimating = Some False\<rparr>],
       inputMessage := []\<rparr>"
  by (simp add: handleSendMessage_def Let_def)

lemma handleSendMessage_reject: "trim (inputMessage s) = [] \<Longrightarrow> handleSendMessage s = s"
  by (simp add: handleSendMessage_def)

lemma handleSendMessage_changes:
  "trim (inputMessage s) \<noteq> [] \<Longrightarrow> handleSendMessage s \<noteq> s"
proof
  assume a: "trim (inputMessage s) \<noteq> []" and e: "handleSendMessage s = s"
  have "length (messages (handleSendMessage s)) = Suc (length (messages s))"
    using a by (simp add: handleSendMessage_accept)
  with e show False by simp
qed

lemma submitRejected_iff:
  "submitRejected s \<longleftrightarrow> (trim (inputMessage s) = [] \<or> callStatus s = Processing)"
  by (auto simp: submitRejected_def trim_empty_iff)

lemma handleSendMessage_noop_iff:
  "handleSendMessage s = s \<longleftrightarrow> trim (inputMessage s) = []"
  using handleSendMessage_changes [of s] handleSendMessage_reject [of s] by blast

lemma clickSend_noop_iff: "clickSend s = s \<longleftrightarrow> submitRejected s"
  using handleSendMessage_changes [of s]
  by (auto simp: clickSend_def buttonDisabled_def submitRejected_iff)

lemma pressEnter_noop_iff: "pressEnter s = s \<longleftrightarrow> trim (inputMessage s) = []"
  by (simp add: pressEnter_def handleSendMessage_noop_iff)


text \<open>
  Claim C4.  An accepted submission appends one message with speaker customer, sentiment
  neutral, \<open>messageVisible\<close> true and \<open>isAnimating\<close> false, with no waveform flag (it is
  never in flight); the turn index, the call status, the pending timeouts and the phase log
  are untouched, and the messages stored before are still there, unchanged and in place.
\<close>

theorem accepted_message_is_final_and_frames:
  assumes "\<not> submitRejected s" and "s' = clickSend s \<or> s' = pressEnter s"
  shows "\<exists>m. messages s' = messages s @ [m]
            \<and> m_speaker m = Customer \<and> m_sentiment m = Some Neutral
            \<and> m_messageVisible m = Some True \<and> m_isAnimating m = Some False
            \<and> m_showWaveformFirst m = None \<and> \<not> inFlight m
            \<and> m_message m = trim (inputMessage s)
            \<and> currentMessageIndex s' = currentMessageIndex s
            \<and> callStatus s' = callStatus s
            \<and> currentSpeaker s' = currentSpeaker s
            \<and> timers s' = timers s
            \<and> phaseLog s' = phaseLog s
            \<and> take (length (messages s)) (messages s') = messages s"
proof -
  from assms(1) have t: "trim (inputMessage s) \<noteq> []" and p: "callStatus s \<noteq> Processing"
    by (simp_all add: submitRejected_iff)
  from assms(2) t p have "s' = handleSendMessage s"
    by (auto simp: clickSend_def pressEnter_def buttonDisabled_def)
  then show ?thesis using t by (simp add: handleSendMessage_accept inFlight_def)
qed

theorem accepted_message_witness:
  "messages (clickSend (idleWindow (js '' hi '') Speaking)) =
       [\<lparr>m_id = ManualId 0, m_speaker = Customer, m_message = js ''hi'',
         m_timestamp = 0, m_sentiment = Some Neutral, m_isNew = None,
         m_showWaveformFirst = None, m_messageVisible = Some True,
         m_isAnimating = Some False\<rparr>]
   \<and> callStatus (clickSend (idleWindow (js '' hi '') Speaking)) = Speaking
   \<and> currentMessageIndex (clickSend (idleWindow (js '' hi '') Speaking)) = 0"
proof -
  have n: "\<not> submitRejected (idleWindow (js '' hi '') Speaking)"
    by (simp add: submitRejected_def idleWindow_def js_def ch_def isWhiteSpace_def)
  have tr: "trim (js '' hi '') = js ''hi''"
    by (simp add: trim_def js_def ch_def isWhiteSpace_def)
  from accepted_message_is_final_and_frames [OF n, of "clickSend (idleWindow (js '' hi '') Speaking)"]
  obtain m where m: "messages (clickSend (idleWindow (js '' hi '') Speaking)) =
        messages (idleWindow (js '' hi '') Speaking) @ [m]"
     "m_speaker m = Customer" "m_sentiment m = Some Neutral"
     "callStatus (clickSend (idleWindow (js '' hi '') Speaking)) = callStatus (idleWindow (js '' hi '') Speaking)"
     "currentMessageIndex (clickSend (idleWindow (js '' hi '') Speaking)) = currentMessageIndex (idleWindow (js '' hi '') Speaking)"
    by blast
  have "messages (clickSend (idleWindow (js '' hi '') Speaking)) =
       [\<lparr>m_id = ManualId 0, m_speaker = Customer, m_message = js ''hi'',
         m_timestamp = 0, m_sentiment = Some Neutral, m_isNew = None,
         m_showWaveformFirst = None, m_messageVisible = Some True,
         m_isAnimating = Some False\<rparr>]"
    using n by (simp add: clickSend_def buttonDisabled_def submitRejected_iff
        handleSendMessage_accept tr) (simp add: idleWindow_def tr)
  with n m show ?thesis by (simp add: idleWindow_def)
qed

section \<open>Properties of the typed reveal engine\<close>

lemma split_no_sep: "sep \<notin> set xs \<Longrightarrow> split sep xs = [xs]"
  by (induction xs) auto

lemma split_length_sep: "sep \<in> set xs \<Longrightarrow> 2 \<le> length (split sep xs)"
proof (induction xs)
  case Nil
  then show ?case by simp
next
  case (Cons c cs)
  show ?case
  proof (cases "sep \<in> set cs")
    case True
    with Cons.IH show ?thesis by (auto split: list.splits)
  next
    case False
    with Cons.prems have "c = sep" by simp
    with False show ?thesis by (simp add: split_no_sep)
  qed
qed

lemma last_split: "last (split sep xs) = rev (takeWhile (\<lambda>x. x \<noteq> sep) (rev xs))"
proof (induction xs)
  case Nil
  show ?case by simp
next
  case (Cons c cs)
  show ?case
  proof (cases "sep \<in> set cs")
    case False
    then have "takeWhile (\<lambda>x. x \<noteq> sep) (rev cs @ [c]) = rev cs @ takeWhile (\<lambda>x. x \<noteq> sep) [c]"
      by (intro takeWhile_append2) auto
    then have "takeWhile (\<lambda>x. x \<noteq> sep) (rev (c # cs)) = rev cs @ (if c = sep then [] else [c])"
      by simp
    then have "rev (takeWhile (\<lambda>x. x \<noteq> sep) (rev (c # cs))) = (if c = sep then cs else c # cs)"
      by simp
    moreover have "last (split sep (c # cs)) = (if c = sep then cs else c # cs)"
      using False by (simp add: split_no_sep)
    ultimately show ?thesis by simp
  next
    case True
    from split_length_sep [OF True] obtain w ws where sp: "split sep cs = w # ws"
      by (cases "split sep cs") auto
    with split_length_sep [OF True] have ws: "ws \<noteq> []" by auto
    from True have "\<exists>x \<in> set (rev cs). \<not> x \<noteq> sep" by auto
    then obtain x where "x \<in> set (rev cs)" "\<not> x \<noteq> sep" by blast
    then have "takeWhile (\<lambda>x. x \<noteq> sep) (rev cs @ [c]) = takeWhile (\<lambda>x. x \<noteq> sep) (rev cs)"
      by (rule takeWhile_append1)
    with Cons.IH sp ws show ?thesis by simp
  qed
qed

lemma toLowerCase_common:
  "toLowerCase c \<in> set (js ''etaoinshr'') \<longleftrightarrow> isCommonLetter c"
proof (cases "0x41 \<le> c \<and> c \<le> 0x5A")
  case False
  then show ?thesis
    by (auto simp: toLowerCase_def isCommonLetter_def js_def ch_def)
next
  case True
  have eq: "\<And>a. (c + 0x20 = a) = (c = a - 0x20)" by auto
  from True show ?thesis
    by (auto simp: toLowerCase_def isCommonLetter_def js_def ch_def eq)
qed

lemma classes_exhaustive:
  "c \<in> set (js ''.!?'') \<or> c \<in> set (js '',;:'') \<or> c = space \<or> isCommonLetter c
   \<or> isDigit c \<or> isOtherSymbol c \<or> isPlain c"
  by (auto simp: isPlain_def isOtherSymbol_def js_def ch_def)

lemma speed_sentence: "c \<in> set (js ''.!?'') \<Longrightarrow> getTypingSpeed b r c i T = 3 * b"
  by (simp add: getTypingSpeed_def)

lemma speed_secondary: "c \<in> set (js '',;:'') \<Longrightarrow> getTypingSpeed b r c i T = 2 * b"
  by (auto simp add: getTypingSpeed_def js_def ch_def)

lemma speed_space:
  "getTypingSpeed b r space i T =
     (if 7 < length (wordBefore i T) then 2 * b else 13 / 10 * b)"
  by (simp add: getTypingSpeed_def wordBefore_def last_split Let_def)
     (simp add: space_def js_def ch_def)

lemma speed_common: "isCommonLetter c \<Longrightarrow> getTypingSpeed b r c i T = 7 / 10 * b"
  unfolding getTypingSpeed_def toLowerCase_common Let_def
  by (auto simp: isCommonLetter_def js_def ch_def)

lemma speed_digit: "isDigit c \<Longrightarrow> getTypingSpeed b r c i T = 14 / 10 * b"
  unfolding getTypingSpeed_def toLowerCase_common Let_def
  by (auto simp: isDigit_def isCommonLetter_def js_def ch_def)

lemma common_is_letter: "isCommonLetter c \<Longrightarrow> isAsciiLetter c"
  by (auto simp: isCommonLetter_def isAsciiLetter_def js_def ch_def)

lemma space_is_whitespace: "isWhiteSpace space"
  by (simp add: isWhiteSpace_def space_def ch_def)

lemma space_not_letter: "\<not> isAsciiLetter space"
  by (simp add: isAsciiLetter_def space_def ch_def)

lemma punct_split:
  "c \<in> set (js ''.!?,;:'') \<longleftrightarrow> c \<in> set (js ''.!?'') \<or> c \<in> set (js '',;:'')"
  by (auto simp: js_def)

lemma punct_plain: "c \<in> set (js ''.!?,;:'') \<Longrightarrow>
    \<not> isAsciiLetter c \<and> \<not> isWhiteSpace c \<and> \<not> isDigit c"
  by (auto simp: js_def ch_def isAsciiLetter_def isWhiteSpace_def isDigit_def)

lemma letter_not_digit: "isAsciiLetter c \<Longrightarrow> \<not> isDigit c"
  by (auto simp: isAsciiLetter_def isDigit_def word_le_nat_alt)

lemma whitespace_not_digit: "isWhiteSpace c \<Longrightarrow> \<not> isDigit c"
  by (auto simp: isWhiteSpace_def isDigit_def word_le_nat_alt)

lemma whitespace_not_letter: "isWhiteSpace c \<Longrightarrow> \<not> isAsciiLetter c"
  by (auto simp: isWhiteSpace_def isAsciiLetter_def word_le_nat_alt)

lemma speed_other: "isOtherSymbol c \<Longrightarrow> getTypingSpeed b r c i T = 13 / 10 * b"
proof -
  assume o: "isOtherSymbol c"
  then have np: "c \<notin> set (js ''.!?'')" "c \<notin> set (js '',;:'')"
    by (simp_all add: isOtherSymbol_def punct_split)
  from o have nl: "\<not> isAsciiLetter c" and nd: "\<not> isDigit c" and nw: "\<not> isWhiteSpace c"
    and npp: "c \<notin> set (js ''.!?,;:'')"
    by (simp_all add: isOtherSymbol_def)
  from nw have ns: "c \<noteq> ch CHR '' ''" using space_is_whitespace by (auto simp: space_def)
  from nl have nc: "\<not> isCommonLetter c" using common_is_letter by blast
  show ?thesis
    unfolding getTypingSpeed_def toLowerCase_common Let_def
    using np ns nc nd nl nw npp by simp
qed

lemma speed_plain:
  "isPlain c \<Longrightarrow>
   getTypingSpeed b r c i T = max (b * (1 + (r - 1 / 2) * (1 / 2))) (3 / 10 * b)"
proof -
  assume p: "isPlain c"
  then have lw: "isAsciiLetter c \<or> isWhiteSpace c" by (auto simp: isPlain_def)
  then have npp: "c \<notin> set (js ''.!?,;:'')" using punct_plain by blast
  then have np: "c \<notin> set (js ''.!?'')" "c \<notin> set (js '',;:'')"
    by (simp_all add: punct_split)
  from p have ns: "c \<noteq> ch CHR '' ''"
    using space_not_letter by (auto simp: isPlain_def space_def)
  from p have nc: "\<not> isCommonLetter c"
    using common_is_letter whitespace_not_letter by (auto simp: isPlain_def)
  from lw have nd: "\<not> isDigit c" using letter_not_digit whitespace_not_digit by blast
  show ?thesis
    unfolding getTypingSpeed_def toLowerCase_common Let_def
    using np ns nc nd lw by simp
qed

lemma typingEffect_schedules:
  "currentIndex s < length (textProp p) \<Longrightarrow>
   pendingTimeout (typingEffect rnd p s) =
     Some \<lparr>to_index = currentIndex s, to_char = textProp p ! currentIndex s,
           to_onStart = onStart p,
           to_ms = (if currentIndex s = 0 then delay p
                    else getTypingSpeed (speed p) (rnd (effectRuns s))
                           (textProp p ! currentIndex s) (currentIndex s) (textProp p))\<rparr>"
  by (simp add: typingEffect_def Let_def)

text \<open>
  Claim C5.  The delay computed for a code unit \<open>c\<close> at position \<open>i\<close> of the text \<open>T\<close>, with
  base speed \<open>b\<close> and random draw \<open>r\<close>: three times \<open>b\<close> for a sentence terminator, twice for
  a comma, semicolon or colon, for a space twice when the word before it is longer than 7
  and 1.3 times otherwise, 0.7 times for the nine common letters in either case, 1.4 times
  for a digit, 1.3 times for any other code unit that is neither a letter, a digit nor
  white space, and for the rest \<open>b (1 + U)\<close> but at least \<open>0.3 b\<close>, where \<open>U\<close> lies in
  \<open>[-1/4, 1/4)\<close> when the draw lies in \<open>[0, 1)\<close>.  Every code unit is in one of the
  classes.  The timeout the effect registers carries the start delay at position 0 and the
  computed delay at every other position.
\<close>

theorem typing_delay_policy:
  "(c \<in> set (js ''.!?'') \<longrightarrow> getTypingSpeed b r c i T = 3 * b)
   \<and> (c \<in> set (js '',;:'') \<longrightarrow> getTypingSpeed b r c i T = 2 * b)
   \<and> (c = space \<longrightarrow>
        getTypingSpeed b r c i T = (if 7 < length (wordBefore i T) then 2 * b else 13 / 10 * b))
   \<and> (isCommonLetter c \<longrightarrow> getTypingSpeed b r c i T = 7 / 10 * b)
   \<and> (isDigit c \<longrightarrow> getTypingSpeed b r c i T = 14 / 10 * b)
   \<and> (isOtherSymbol c \<longrightarrow> getTypingSpeed b r c i T = 13 / 10 * b)
   \<and> (isPlain c \<longrightarrow> getTypingSpeed b r c i T = max (b * (1 + variation r)) (3 / 10 * b))
   \<and> (0 \<le> r \<and> r < 1 \<longrightarrow> - (1 / 4) \<le> variation r \<and> variation r < 1 / 4)
   \<and> (c \<in> set (js ''.!?'') \<or> c \<in> set (js '',;:'') \<or> c = space \<or> isCommonLetter c
        \<or> isDigit c \<or> isOtherSymbol c \<or> isPlain c)
   \<and> (currentIndex s < length (textProp p) \<longrightarrow>
        (\<exists>t. pendingTimeout (typingEffect rnd p s) = Some t
             \<and> to_char t = textProp p ! currentIndex s
             \<and> to_ms t = (if currentIndex s = 0 then delay p
                          else getTypingSpeed (speed p) (rnd (effectRuns s))
                                 (textProp p ! currentIndex s) (currentIndex s) (textProp p))))"
proof -
  have v: "0 \<le> r \<and> r < 1 \<longrightarrow> - (1 / 4) \<le> variation r \<and> variation r < 1 / 4"
    by (simp add: variation_def)
  have pl: "isPlain c \<longrightarrow> getTypingSpeed b r c i T = max (b * (1 + variation r)) (3 / 10 * b)"
    by (simp add: speed_plain variation_def)
  show ?thesis
    using v pl classes_exhaustive [of c]
    by (simp add: speed_sentence speed_secondary speed_space speed_common speed_digit
          speed_other typingEffect_schedules)
qed

theorem typing_delay_witness:
  "getTypingSpeed 40 (1 / 2) (ch CHR ''!'') 2 (js ''Hi!'') = 120
   \<and> getTypingSpeed 40 (1 / 2) (ch CHR '';'') 2 (js ''Hi;'') = 80
   \<and> getTypingSpeed 40 (1 / 2) space 9 (js ''Wonderful day'') = 80
   \<and> getTypingSpeed 40 (1 / 2) space 2 (js ''Hi there'') = 52
   \<and> getTypingSpeed 40 (1 / 2) (ch CHR ''E'') 0 (js ''E'') = 28
   \<and> getTypingSpeed 40 (1 / 2) (ch CHR ''7'') 0 (js ''7'') = 56
   \<and> getTypingSpeed 40 (1 / 2) (ch CHR ''#'') 0 (js ''#'') = 52
   \<and> getTypingSpeed 40 0 (ch CHR ''b'') 0 (js ''b'') = 30
   \<and> - (1 / 4) \<le> variation 0 \<and> variation 0 < 1 / 4
   \<and> (\<exists>t. pendingTimeout (typingEffect (\<lambda>k. 0) (demoProps (js ''Hi'')) freshState) = Some t
          \<and> to_ms t = 300)
   \<and> (\<exists>t. pendingTimeout (typingEffect (\<lambda>k. 0) (demoProps (js ''Hi''))
                              (freshState\<lparr>currentIndex := 1\<rparr>)) = Some t
          \<and> to_ms t = 28)"
proof -
  have 1: "getTypingSpeed 40 (1 / 2) (ch CHR ''!'') 2 (js ''Hi!'') = 120"
    using typing_delay_policy [of "ch CHR ''!''" 40 "1 / 2" 2 "js ''Hi!''"]
    by (simp add: js_def)
  have 2: "getTypingSpeed 40 (1 / 2) (ch CHR '';'') 2 (js ''Hi;'') = 80"
    using typing_delay_policy [of "ch CHR '';''" 40 "1 / 2" 2 "js ''Hi;''"]
    by (simp add: js_def)
  have w9: "wordBefore 9 (js ''Wonderful day'') = js ''Wonderful''"
    by (simp add: wordBefore_def js_def ch_def space_def)
  have w2: "wordBefore 2 (js ''Hi there'') = js ''Hi''"
    by (simp add: wordBefore_def js_def ch_def space_def)
  have 3: "getTypingSpeed 40 (1 / 2) space 9 (js ''Wonderful day'') = 80"
    using typing_delay_policy [of space 40 "1 / 2" 9 "js ''Wonderful day''"]
    by (simp add: w9) (simp add: js_def)
  have 4: "getTypingSpeed 40 (1 / 2) space 2 (js ''Hi there'') = 52"
    using typing_delay_policy [of space 40 "1 / 2" 2 "js ''Hi there''"]
    by (simp add: w2) (simp add: js_def)
  have 5: "getTypingSpeed 40 (1 / 2) (ch CHR ''E'') 0 (js ''E'') = 28"
    using typing_delay_policy [of "ch CHR ''E''" 40 "1 / 2" 0 "js ''E''"]
    by (simp add: isCommonLetter_def js_def)
  have 6: "getTypingSpeed 40 (1 / 2) (ch CHR ''7'') 0 (js ''7'') = 56"
    using typing_delay_policy [of "ch CHR ''7''" 40 "1 / 2" 0 "js ''7''"]
    by (simp add: isDigit_def ch_def)
  have 7: "getTypingSpeed 40 (1 / 2) (ch CHR ''#'') 0 (js ''#'') = 52"
    using typing_delay_policy [of "ch CHR ''#''" 40 "1 / 2" 0 "js ''#''"]
    by (simp add: isOtherSymbol_def isAsciiLetter_def isDigit_def isWhiteSpace_def js_def ch_def)
  have 8: "getTypingSpeed 40 0 (ch CHR ''b'') 0 (js ''b'') = 30"
    using typing_delay_policy [of "ch CHR ''b''" 40 0 0 "js ''b''"]
    by (simp add: isPlain_def isAsciiLetter_def isCommonLetter_def js_def ch_def variation_def)
  have 9: "- (1 / 4) \<le> variation 0 \<and> variation 0 < 1 / 4"
    using typing_delay_policy [of "ch CHR ''b''" 40 0 0 "js ''b''"] by simp
  have 10: "\<exists>t. pendingTimeout (typingEffect (\<lambda>k. 0) (demoProps (js ''Hi'')) freshState) = Some t
          \<and> to_ms t = 300"
    using typing_delay_policy [of 0 0 0 0 "[]" freshState "demoProps (js ''Hi'')" "\<lambda>k. 0",
        THEN conjunct2, THEN conjunct2, THEN conjunct2, THEN conjunct2, THEN conjunct2,
        THEN conjunct2, THEN conjunct2, THEN conjunct2, THEN conjunct2]
    by (auto simp add: freshState_def demoProps_def js_def)
  have c1: "getTypingSpeed 40 0 (ch CHR ''i'') 1 (js ''Hi'') = 28"
    using typing_delay_policy [of "ch CHR ''i''" 40 0 1 "js ''Hi''"]
    by (simp add: isCommonLetter_def js_def)
  have 11: "\<exists>t. pendingTimeout (typingEffect (\<lambda>k. 0) (demoProps (js ''Hi''))
                              (freshState\<lparr>currentIndex := 1\<rparr>)) = Some t
          \<and> to_ms t = 28"
    using typing_delay_policy [of 0 0 0 0 "[]" "freshState\<lparr>currentIndex := 1\<rparr>"
             "demoProps (js ''Hi'')" "\<lambda>k. 0",
        THEN conjunct2, THEN conjunct2, THEN conjunct2, THEN conjunct2, THEN conjunct2,
        THEN conjunct2, THEN conjunct2, THEN conjunct2, THEN conjunct2] c1
    by (auto simp add: freshState_def demoProps_def js_def)
  from 1 2 3 4 5 6 7 8 9 10 11 show ?thesis by blast
qed

lemma typingEffect_at:
  assumes "currentIndex s = n" and "effectRuns s = n" and "n \<le> length (textProp p)"
  shows "typingEffect rnd p s =
           s\<lparr>effectRuns := Suc n,
             isTyping := (if n < length (textProp p) then isTyping s else False),
             pendingTimeout := (if n < length (textProp p) then expectedTimeout rnd p n
                                else pendingTimeout s),
             trace := trace s @ afterCommit rnd p n\<rparr>"
  using assms
  by (simp add: typingEffect_def Let_def expectedTimeout_def afterCommit_def scheduledMs_def)

lemma reveal_0: "reveal rnd p 0 = mount rnd p"
  by (simp add: reveal_def)

lemma reveal_Suc: "reveal rnd p (Suc n) = fire rnd p (reveal rnd p n)"
  by (simp add: reveal_def)

lemma mount_state:
  "mount rnd p =
     \<lparr>displayedText = [], currentIndex = 0, isTyping = False,
      pendingTimeout = expectedTimeout rnd p 0, effectRuns = Suc 0,
      trace = expectedTrace rnd p 0\<rparr>"
  by (simp add: mount_def resetEffect_def typingEffect_def Let_def expectedTimeout_def
        afterCommit_def scheduledMs_def)

lemma reveal_state:
  "n \<le> length (textProp p) \<Longrightarrow>
   displayedText (reveal rnd p n) = take n (textProp p)
   \<and> currentIndex (reveal rnd p n) = n
   \<and> pendingTimeout (reveal rnd p n) = expectedTimeout rnd p n
   \<and> effectRuns (reveal rnd p n) = Suc n
   \<and> trace (reveal rnd p n) = expectedTrace rnd p n"
proof (induction n)
  case 0
  show ?case by (simp add: reveal_0 mount_state)
next
  case (Suc n)
  let ?s = "reveal rnd p n"
  let ?T = "textProp p"
  from Suc.prems have lt: "n < length ?T" by simp
  with Suc.IH have d: "displayedText ?s = take n ?T" and i: "currentIndex ?s = n"
    and t: "pendingTimeout ?s = Some \<lparr>to_index = n, to_char = ?T ! n, to_onStart = onStart p,
                 to_ms = scheduledMs rnd p n\<rparr>"
    and r: "effectRuns ?s = Suc n" and tr: "trace ?s = expectedTrace rnd p n"
    by (simp_all add: expectedTimeout_def)
  let ?b = "typingCleanup (timeoutBody \<lparr>to_index = n, to_char = ?T ! n, to_onStart = onStart p,
                 to_ms = scheduledMs rnd p n\<rparr> (?s\<lparr>pendingTimeout := None\<rparr>))"
  have bi: "currentIndex ?b = Suc n" and br: "effectRuns ?b = Suc n"
    and bd: "displayedText ?b = take (Suc n) ?T"
    and bp: "pendingTimeout ?b = None"
    and bt: "trace ?b = expectedTrace rnd p n @ (if n = 0 then callback OnStart (onStart p) else [])
       @ [Displayed (take (Suc n) ?T)]"
    using d i r tr lt
    by (auto simp add: typingCleanup_def timeoutBody_def Let_def take_Suc_conv_app_nth)
  have f: "fire rnd p ?s = typingEffect rnd p ?b"
    by (simp add: fire_def t)
  have e: "typingEffect rnd p ?b =
           ?b\<lparr>effectRuns := Suc (Suc n),
             isTyping := (if Suc n < length ?T then isTyping ?b else False),
             pendingTimeout := (if Suc n < length ?T then expectedTimeout rnd p (Suc n)
                                else pendingTimeout ?b),
             trace := trace ?b @ afterCommit rnd p (Suc n)\<rparr>"
    using bi br Suc.prems by (rule typingEffect_at)
  show ?case
    unfolding reveal_Suc f e using bi bd bp bt
    by (simp add: expectedTimeout_def)
qed

lemma shown_append: "shown (xs @ ys) = shown xs @ shown ys"
  by (simp add: shown_def)

lemma shown_Displayed: "shown (Displayed d # xs) = d # shown xs" and shown_Nil: "shown [] = []"
  by (simp_all add: shown_def)

lemma shown_afterCommit: "shown (afterCommit rnd p n) = []"
  by (cases "onComplete p") (simp_all add: shown_def afterCommit_def callback_def)

lemma shown_callback: "shown (callback OnStart g) = []"
  by (cases g) (simp_all add: shown_def callback_def)

lemma shown_expectedTrace:
  "shown (expectedTrace rnd p n) = map (\<lambda>k. take k (textProp p)) [0..<Suc n]"
proof (induction n)
  case 0
  show ?case by (simp add: shown_Displayed shown_afterCommit)
next
  case (Suc n)
  then show ?case
    by (simp add: shown_append shown_afterCommit shown_callback shown_Displayed shown_Nil)
qed

lemma complete_callback:
  "filter isOnComplete (callback OnStart g) = []"
  "filter isOnComplete (callback OnComplete f) = callback OnComplete f"
  by (simp_all add: callback_def isOnComplete_def split: option.splits)

lemma complete_Displayed [simp]: "isOnComplete (Displayed d) = False"
  by (simp add: isOnComplete_def)

lemma complete_afterCommit:
  "filter isOnComplete (afterCommit rnd p n) =
     (if n < length (textProp p) then [] else callback OnComplete (onComplete p))"
  by (simp add: afterCommit_def complete_callback isOnComplete_def)

lemma complete_expectedTrace:
  "n \<le> length (textProp p) \<Longrightarrow>
   filter isOnComplete (expectedTrace rnd p n) =
     (if n = length (textProp p) then callback OnComplete (onComplete p) else [])"
proof (induction n)
  case 0
  show ?case by (auto simp add: complete_afterCommit)
next
  case (Suc n)
  then have "filter isOnComplete (expectedTrace rnd p n) = []" by simp
  then show ?case using Suc.prems
    by (auto simp add: complete_afterCommit complete_callback)
qed

lemma expectedTrace_end:
  "\<exists>xs. expectedTrace rnd p (length (textProp p)) =
          xs @ Displayed (textProp p) # callback OnComplete (onComplete p)
        \<and> filter isOnComplete xs = []"
proof (cases "length (textProp p)")
  case 0
  then have "expectedTrace rnd p (length (textProp p)) =
      [] @ Displayed (textProp p) # callback OnComplete (onComplete p)"
    by (simp add: afterCommit_def)
  then show ?thesis by (metis filter.simps(1))
next
  case (Suc m)
  let ?xs = "expectedTrace rnd p m @ (if m = 0 then callback OnStart (onStart p) else [])"
  have "filter isOnComplete (expectedTrace rnd p m) = []"
    using Suc by (simp add: complete_expectedTrace)
  then have a: "filter isOnComplete ?xs = []" by (simp add: complete_callback)
  have "expectedTrace rnd p (length (textProp p)) =
      ?xs @ Displayed (textProp p) # callback OnComplete (onComplete p)"
    using Suc by (simp add: afterCommit_def)
  with a show ?thesis by blast
qed

lemma reveal_final:
  "reveal rnd p (length (textProp p) + k) = reveal rnd p (length (textProp p))"
proof (induction k)
  case 0
  show ?case by simp
next
  case (Suc k)
  have "pendingTimeout (reveal rnd p (length (textProp p))) = None"
    using reveal_state [of "length (textProp p)" p rnd] by (simp add: expectedTimeout_def)
  then have "fire rnd p (reveal rnd p (length (textProp p))) = reveal rnd p (length (textProp p))"
    by (simp add: fire_def)
  with Suc show ?case by (simp add: reveal_Suc)
qed

text \<open>
  Claim C2.  For a component mounted with text \<open>T\<close> and props that stay the same, with an
  \<open>onComplete\<close> callback \<open>f\<close>: after \<open>n\<close> timeouts (\<open>n\<close> up to the length of \<open>T\<close>) the displayed
  text is the prefix of length \<open>n\<close>, the values displayed so far are the prefixes of lengths
  0 to \<open>n\<close> in order, each timeout appends exactly the next code unit of \<open>T\<close>, and
  \<open>onComplete\<close> has not fired while \<open>n\<close> is below the length.  After the last timeout the
  trace ends with the display of \<open>T\<close> followed by the one call of \<open>f\<close>, and nothing happens
  afterwards.
\<close>

theorem reveal_emits_prefixes_and_completes_once:
  assumes "onComplete p = Some f"
  shows "(\<forall>n \<le> length (textProp p).
            displayedText (reveal rnd p n) = take n (textProp p)
            \<and> shown (trace (reveal rnd p n)) = map (\<lambda>k. take k (textProp p)) [0..<Suc n]
            \<and> (n < length (textProp p) \<longrightarrow>
                 displayedText (reveal rnd p (Suc n)) =
                   displayedText (reveal rnd p n) @ [textProp p ! n]
                 \<and> filter isOnComplete (trace (reveal rnd p n)) = []))
         \<and> (\<exists>xs. trace (reveal rnd p (length (textProp p))) =
                    xs @ [Displayed (textProp p), OnComplete f]
                  \<and> filter isOnComplete xs = [])
         \<and> (\<forall>k. reveal rnd p (length (textProp p) + k) = reveal rnd p (length (textProp p)))"
proof (intro conjI allI impI)
  fix n assume n: "n \<le> length (textProp p)"
  show "displayedText (reveal rnd p n) = take n (textProp p)"
    using reveal_state [OF n] by simp
  show "shown (trace (reveal rnd p n)) = map (\<lambda>k. take k (textProp p)) [0..<Suc n]"
    using reveal_state [OF n, of rnd] by (simp add: shown_expectedTrace)
next
  fix n assume n: "n \<le> length (textProp p)" and lt: "n < length (textProp p)"
  then have s: "Suc n \<le> length (textProp p)" by simp
  show "displayedText (reveal rnd p (Suc n)) = displayedText (reveal rnd p n) @ [textProp p ! n]"
    using reveal_state [OF n, of rnd] reveal_state [OF s, of rnd] lt
    by (simp add: take_Suc_conv_app_nth)
  show "filter isOnComplete (trace (reveal rnd p n)) = []"
    using reveal_state [OF n, of rnd] lt by (simp add: complete_expectedTrace)
next
  show "\<exists>xs. trace (reveal rnd p (length (textProp p))) =
                    xs @ [Displayed (textProp p), OnComplete f]
                  \<and> filter isOnComplete xs = []"
    using expectedTrace_end [of rnd p] reveal_state [of "length (textProp p)" p rnd] assms
    by (simp add: callback_def)
next
  fix k show "reveal rnd p (length (textProp p) + k) = reveal rnd p (length (textProp p))"
    by (rule reveal_final)
qed

lemma demo_len: "length (textProp (demoProps (js ''Hi''))) = 2"
  by (simp add: demoProps_def js_def)

theorem reveal_witness:
  "displayedText (reveal (\<lambda>k. 0) (demoProps (js ''Hi'')) 1) = js ''H''
   \<and> displayedText (reveal (\<lambda>k. 0) (demoProps (js ''Hi'')) 2) = js ''Hi''
   \<and> shown (trace (reveal (\<lambda>k. 0) (demoProps (js ''Hi'')) 2)) = [[], js ''H'', js ''Hi'']
   \<and> filter isOnComplete (trace (reveal (\<lambda>k. 0) (demoProps (js ''Hi'')) 1)) = []
   \<and> (\<exists>xs. trace (reveal (\<lambda>k. 0) (demoProps (js ''Hi'')) 2) =
               xs @ [Displayed (js ''Hi''), OnComplete 1]
             \<and> filter isOnComplete xs = [])
   \<and> reveal (\<lambda>k. 0) (demoProps (js ''Hi'')) (2 + 3) = reveal (\<lambda>k. 0) (demoProps (js ''Hi'')) 2"
proof -
  have c: "onComplete (demoProps (js ''Hi'')) = Some 1" by (simp add: demoProps_def)
  have t: "textProp (demoProps (js ''Hi'')) = js ''Hi''" by (simp add: demoProps_def)
  have l: "length (js ''Hi'') = 2" by (simp add: js_def)
  have u: "[0..<3] = [0, 1, 2::nat]" by code_simp
  have tk: "take (Suc 0) (js ''Hi'') = js ''H''" "take 2 (js ''Hi'') = js ''Hi''"
           "take 0 (js ''Hi'') = []"
    by (simp_all add: js_def)
  note th = reveal_emits_prefixes_and_completes_once [OF c, of "\<lambda>k. 0"]
  have 1: "displayedText (reveal (\<lambda>k. 0) (demoProps (js ''Hi'')) 1) = js ''H''
           \<and> filter isOnComplete (trace (reveal (\<lambda>k. 0) (demoProps (js ''Hi'')) 1)) = []"
    using th [THEN conjunct1, rule_format, of 1] by (simp add: t l tk)
  have 2: "displayedText (reveal (\<lambda>k. 0) (demoProps (js ''Hi'')) 2) = js ''Hi''
           \<and> shown (trace (reveal (\<lambda>k. 0) (demoProps (js ''Hi'')) 2)) = [[], js ''H'', js ''Hi'']"
    using th [THEN conjunct1, rule_format, of 2] by (simp add: t l u tk)
  have 3: "reveal (\<lambda>k. 0) (demoProps (js ''Hi'')) (2 + 3) = reveal (\<lambda>k. 0) (demoProps (js ''Hi'')) 2"
    using th [THEN conjunct2, THEN conjunct2, rule_format, of 3] by (simp add: t l)
  have 4: "\<exists>xs. trace (reveal (\<lambda>k. 0) (demoProps (js ''Hi'')) 2) =
               xs @ [Displayed (js ''Hi''), OnComplete 1]
             \<and> filter isOnComplete xs = []"
    using th [THEN conjunct2, THEN conjunct1] by (simp add: t l)
  from 1 2 3 4 show ?thesis by blast
qed

text \<open>
  Claim C10.  Mounted with the empty text, the component calls \<open>onComplete\<close> in the mount
  itself, before any timeout and whatever the start delay; no timeout is pending, none is
  ever registered, and \<open>onStart\<close> is never called.
\<close>

theorem empty_text_completes_at_once:
  assumes "textProp p = []" and "onComplete p = Some f"
  shows "trace (mount rnd p) = [Displayed [], OnComplete f]
         \<and> pendingTimeout (mount rnd p) = None
         \<and> reveal rnd p n = mount rnd p
         \<and> filter isSetTimeout (trace (reveal rnd p n)) = []
         \<and> filter isOnStart (trace (reveal rnd p n)) = []"
proof -
  have m: "trace (mount rnd p) = [Displayed [], OnComplete f]"
          "pendingTimeout (mount rnd p) = None"
    using assms
    by (simp_all add: mount_state expectedTimeout_def afterCommit_def callback_def)
  have r: "reveal rnd p n = mount rnd p"
    using reveal_final [of rnd p n] assms(1) by (simp add: reveal_0)
  show ?thesis using m r by (simp add: isSetTimeout_def isOnStart_def)
qed

theorem empty_text_witness:
  "trace (mount (\<lambda>k. 0) (demoProps [])) = [Displayed [], OnComplete 1]
   \<and> pendingTimeout (mount (\<lambda>k. 0) (demoProps [])) = None
   \<and> reveal (\<lambda>k. 0) (demoProps []) 3 = mount (\<lambda>k. 0) (demoProps [])
   \<and> filter isSetTimeout (trace (reveal (\<lambda>k. 0) (demoProps []) 3)) = []
   \<and> filter isOnStart (trace (reveal (\<lambda>k. 0) (demoProps []) 3)) = []"
proof -
  have a: "textProp (demoProps []) = []" by (simp add: demoProps_def)
  have b: "onComplete (demoProps []) = Some 1" by (simp add: demoProps_def)
  show ?thesis using empty_text_completes_at_once [OF a b, of "\<lambda>k. 0" 3]
    by (simp add: isSetTimeout_def isOnStart_def)
qed

lemma rerender_text_change:
  assumes "textProp p' \<noteq> textProp p"
  shows "displayedText (rerender rnd p p' s) = []"
    and "currentIndex (rerender rnd p p' s) = 0"
    and "pendingTimeout (rerender rnd p p' s) = freshTimeout p'"
    and "trace (rerender rnd p p' s) =
           trace s @ staleRun rnd p' s
             @ (if displayedText s = [] then [] else [Displayed []])
             @ (if currentIndex s = 0 then []
                else if textProp p' = [] then callback OnComplete (onComplete p')
                else [SetTimeout (delay p')])"
  using assms
  by (auto simp add: rerender_def typingDepsChanged_def Let_def typingEffect_def
        typingCleanup_def resetEffect_def staleRun_def freshTimeout_def)

lemma fire_revealingAt:
  assumes "revealingAt p i s" and "i < length (textProp p)"
  shows "revealingAt p (Suc i) (fire rnd p s)"
proof -
  from assms obtain t where t: "pendingTimeout s = Some t" "to_index t = i"
      "to_char t = textProp p ! i"
    by (auto simp: revealingAt_def split: option.splits)
  from assms have d: "displayedText s = take i (textProp p)" and c: "currentIndex s = i"
    by (simp_all add: revealingAt_def)
  show ?thesis
    using assms(2) t d c
    by (auto simp add: revealingAt_def fire_def typingEffect_def typingCleanup_def
          timeoutBody_def Let_def take_Suc_conv_app_nth)
qed

lemma fire_shown:
  "pendingTimeout s = Some t \<Longrightarrow>
   shown (trace (fire rnd p s)) = shown (trace s) @ [displayedText s @ [to_char t]]"
  by (cases "to_onStart t"; cases "onComplete p")
     (auto simp add: fire_def typingEffect_def typingCleanup_def timeoutBody_def Let_def
        shown_def callback_def)

lemma fires_revealingAt:
  "revealingAt p 0 s \<Longrightarrow> k \<le> length (textProp p) \<Longrightarrow>
   revealingAt p k (((fire rnd p) ^^ k) s)
   \<and> shown (trace (((fire rnd p) ^^ k) s)) =
       shown (trace s) @ map (\<lambda>j. take (Suc j) (textProp p)) [0..<k]"
proof (induction k)
  case 0
  then show ?case by simp
next
  case (Suc k)
  let ?s = "((fire rnd p) ^^ k) s"
  from Suc have r: "revealingAt p k ?s" and lt: "k < length (textProp p)"
    and sh: "shown (trace ?s) = shown (trace s) @ map (\<lambda>j. take (Suc j) (textProp p)) [0..<k]"
    by simp_all
  from r lt obtain t where t: "pendingTimeout ?s = Some t" "to_char t = textProp p ! k"
    by (auto simp: revealingAt_def split: option.splits)
  from r have d: "displayedText ?s = take k (textProp p)" by (simp add: revealingAt_def)
  have "shown (trace (fire rnd p ?s)) = shown (trace ?s) @ [take (Suc k) (textProp p)]"
    using fire_shown [OF t(1), of rnd p] t(2) d lt by (simp add: take_Suc_conv_app_nth)
  with fire_revealingAt [OF r lt, of rnd] sh show ?case by simp
qed

lemma rerender_revealingAt:
  "textProp p' \<noteq> textProp p \<Longrightarrow> revealingAt p' 0 (rerender rnd p p' s)"
  by (simp add: revealingAt_def rerender_text_change freshTimeout_def)

lemma restart_reveals_new_text:
  assumes "textProp p' \<noteq> textProp p" and "k \<le> length (textProp p')"
  shows "displayedText (((fire rnd p') ^^ k) (rerender rnd p p' s)) = take k (textProp p')"
    and "shown (trace (((fire rnd p') ^^ k) (rerender rnd p p' s))) =
           shown (trace s) @ (if displayedText s = [] then [] else [[]])
             @ map (\<lambda>j. take (Suc j) (textProp p')) [0..<k]"
proof -
  note f = fires_revealingAt [OF rerender_revealingAt [OF assms(1)] assms(2), of rnd rnd s]
  from f show "displayedText (((fire rnd p') ^^ k) (rerender rnd p p' s)) = take k (textProp p')"
    by (simp add: revealingAt_def)
  have "shown (trace (rerender rnd p p' s)) =
          shown (trace s) @ (if displayedText s = [] then [] else [[]])"
    by (cases "onComplete p'")
       (simp_all add: rerender_text_change [OF assms(1)] shown_append staleRun_def shown_def
          callback_def)
  with f show "shown (trace (((fire rnd p') ^^ k) (rerender rnd p p' s))) =
           shown (trace s) @ (if displayedText s = [] then [] else [[]])
             @ map (\<lambda>j. take (Suc j) (textProp p')) [0..<k]"
    by simp
qed

text \<open>
  Claim C6.  When the text changes in the middle of a reveal, the old timeout is cleared,
  the displayed text goes back to empty and only prefixes of the new text are displayed from
  then on (\<open>restart_reveals_new_text\<close>).  But the first effect runs once with the new text
  and the index of the abandoned reveal before the reset takes effect, and it calls
  \<open>onComplete\<close> when that index equals the length of the new text: below, the text changes
  from "Hello" to "Hi" after two code units have been shown, and the callback is called at
  the change, while nothing of "Hi" has been displayed.
\<close>

theorem restart_fires_onComplete_at_stale_index:
  "displayedText (reveal rnd (demoProps (js ''Hello'')) 2) = js ''He''
   \<and> filter isOnComplete (trace (reveal rnd (demoProps (js ''Hello'')) 2)) = []
   \<and> displayedText (rerender rnd (demoProps (js ''Hello'')) (demoProps (js ''Hi''))
                       (reveal rnd (demoProps (js ''Hello'')) 2)) = []
   \<and> trace (rerender rnd (demoProps (js ''Hello'')) (demoProps (js ''Hi''))
               (reveal rnd (demoProps (js ''Hello'')) 2)) =
       trace (reveal rnd (demoProps (js ''Hello'')) 2)
         @ [OnComplete 1, Displayed [], SetTimeout 300]"
proof -
  let ?p = "demoProps (js ''Hello'')"
  let ?p' = "demoProps (js ''Hi'')"
  have t: "textProp ?p = js ''Hello''" "textProp ?p' = js ''Hi''"
    and c: "onComplete ?p' = Some 1" and d: "delay ?p' = 300"
    by (simp_all add: demoProps_def)
  have l: "length (js ''Hello'') = 5" "length (js ''Hi'') = 2" by (simp_all add: js_def)
  have ne: "textProp ?p' \<noteq> textProp ?p" by (simp add: demoProps_def js_def)
  have two: "2 \<le> length (textProp ?p)" by (simp add: t l)
  note st = reveal_state [OF two, of rnd]
  have tk: "take 2 (js ''Hello'') = js ''He''" and n1: "js ''He'' \<noteq> []"
    and n2: "js ''Hi'' \<noteq> []"
    by (simp_all add: js_def)
  have a: "displayedText (reveal rnd ?p 2) = js ''He''"
    using st by (simp add: t tk)
  have b: "filter isOnComplete (trace (reveal rnd ?p 2)) = []"
    using st complete_expectedTrace [OF two, of rnd] by (simp add: t l)
  have i: "currentIndex (reveal rnd ?p 2) = 2" using st by simp
  have e: "trace (rerender rnd ?p ?p' (reveal rnd ?p 2)) =
       trace (reveal rnd ?p 2) @ [OnComplete 1, Displayed [], SetTimeout 300]"
    by (simp add: rerender_text_change [OF ne] staleRun_def a i t l c d n1 n2 callback_def)
  show ?thesis using a b e by (simp add: rerender_text_change [OF ne])
qed

section \<open>Properties of the playback driver\<close>

lemma canonicalPhases_Suc: "canonicalPhases (Suc n) = canonicalPhases n @ turnPhases n"
  by (simp add: canonicalPhases_def)

lemma length_canonicalPhases: "length (canonicalPhases n) = 4 * n"
  by (induction n) (simp_all add: canonicalPhases_Suc turnPhases_def, simp add: canonicalPhases_def)

lemma nth_canonicalPhases:
  "k < n \<Longrightarrow> j < 4 \<Longrightarrow> canonicalPhases n ! (4 * k + j) = turnPhases k ! j"
proof (induction n)
  case 0
  then show ?case by simp
next
  case (Suc n)
  show ?case
  proof (cases "k < n")
    case True
    then have "4 * k + j < length (canonicalPhases n)"
      using Suc.prems(2) by (simp add: length_canonicalPhases)
    then show ?thesis using Suc.IH True Suc.prems(2)
      by (simp add: canonicalPhases_Suc nth_append)
  next
    case False
    with Suc.prems have "k = n" by simp
    then show ?thesis
      by (simp add: canonicalPhases_Suc nth_append length_canonicalPhases)
  qed
qed

lemma take_canonicalPhases:
  assumes "k < n" and "j < 4"
  shows "take (Suc (4 * k + j)) (canonicalPhases n) =
           take (4 * k + j) (canonicalPhases n) @ [turnPhases k ! j]"
proof -
  have "4 * k + j < length (canonicalPhases n)"
    using assms by (simp add: length_canonicalPhases)
  then show ?thesis
    using nth_canonicalPhases [OF assms] by (simp add: take_Suc_conv_app_nth)
qed

lemma phase_steps:
  assumes "k < n"
  shows "take (4 * k) (canonicalPhases n) @ [PendingReveal k] = take (4 * k + 1) (canonicalPhases n)"
    and "take (4 * k + 1) (canonicalPhases n) @ [RevealStarted k] = take (4 * k + 2) (canonicalPhases n)"
    and "take (4 * k + 2) (canonicalPhases n) @ [ContentVisible k] = take (4 * k + 3) (canonicalPhases n)"
    and "take (4 * k + 3) (canonicalPhases n) @ [Completed k] = take (4 * Suc k) (canonicalPhases n)"
proof -
  have e: "4 * k + 1 = Suc (4 * k + 0)" "4 * k + 2 = Suc (4 * k + 1)"
    "4 * k + 3 = Suc (4 * k + 2)" "4 * Suc k = Suc (4 * k + 3)"
    by simp_all
  show "take (4 * k) (canonicalPhases n) @ [PendingReveal k] = take (4 * k + 1) (canonicalPhases n)"
    unfolding e(1) using take_canonicalPhases [OF assms, of 0] by (simp add: turnPhases_def)
  show "take (4 * k + 1) (canonicalPhases n) @ [RevealStarted k] = take (4 * k + 2) (canonicalPhases n)"
    unfolding e(2) using take_canonicalPhases [OF assms, of 1] by (simp add: turnPhases_def)
  show "take (4 * k + 2) (canonicalPhases n) @ [ContentVisible k] = take (4 * k + 3) (canonicalPhases n)"
    unfolding e(3) using take_canonicalPhases [OF assms, of 2] by (simp add: turnPhases_def)
  show "take (4 * k + 3) (canonicalPhases n) @ [Completed k] = take (4 * Suc k) (canonicalPhases n)"
    unfolding e(4) using take_canonicalPhases [OF assms, of 3]
    by (simp add: turnPhases_def numeral_3_eq_3)
qed

lemma earliest_single: "earliest [t] = Some t"
  by simp

lemma fireTimer_single:
  "timers s = [(h, due, a)] \<Longrightarrow>
   fireTimer flow s = runAction flow a (s\<lparr>clock := max (clock s) due, timers := []\<rparr>)"
  by (simp add: fireTimer_def)

lemma fireTimer_none: "timers s = [] \<Longrightarrow> fireTimer flow s = s"
  by (simp add: fireTimer_def)

lemma processMessage_fields:
  assumes "timers s = []"
  shows "callStatus (processMessage k m s) =
           (if f_speaker m = Customer then Listening else Processing)"
    and "currentSpeaker (processMessage k m s) =
           (if f_speaker m = Customer then Some Customer else None)"
    and "clock (processMessage k m s) = clock s"
    and "messages (processMessage k m s) = messages s @ [waveformMessage (f_speaker m) (clock s)]"
    and "timers (processMessage k m s) =
           [(nextHandle s, clock s + waveformDuration (f_speaker m),
             RevealStart k m (MessageId (clock s)))]"
    and "currentMessageIndex (processMessage k m s) = currentMessageIndex s"
    and "phaseLog (processMessage k m s) = phaseLog s @ [PendingReveal k]"
  using assms
  by (simp_all add: processMessage_def addWaveformMessage_def setTimeout_def Let_def
        waveformMessage_def waveformDuration_def)

lemma revealStart_fields:
  assumes "timers s = []"
  shows "callStatus (revealStart k m i s) = Speaking"
    and "currentSpeaker (revealStart k m i s) = Some (f_speaker m)"
    and "clock (revealStart k m i s) = clock s"
    and "messages (revealStart k m i s) =
           map (\<lambda>x. if m_id x = i
                     then x\<lparr>m_message := f_message m, m_sentiment := f_sentiment m,
                            m_isNew := Some False, m_showWaveformFirst := Some False\<rparr>
                     else x) (messages s)"
    and "timers (revealStart k m i s) = [(nextHandle s, clock s + 600, ShowContent k m i)]"
    and "currentMessageIndex (revealStart k m i s) = currentMessageIndex s"
    and "phaseLog (revealStart k m i s) = phaseLog s @ [RevealStarted k]"
  using assms
  by (simp_all add: revealStart_def updateMessage_def setTimeout_def Let_def)

lemma showContent_fields:
  assumes "timers s = []"
  shows "callStatus (showContent k m i s) = callStatus s"
    and "currentSpeaker (showContent k m i s) = currentSpeaker s"
    and "clock (showContent k m i s) = clock s"
    and "messages (showContent k m i s) =
           map (\<lambda>x. if m_id x = i
                     then x\<lparr>m_messageVisible := Some True, m_isAnimating := Some False\<rparr>
                     else x) (messages s)"
    and "timers (showContent k m i s) =
           [(nextHandle s, clock s + max 0 (completionDelay m), Complete k)]"
    and "currentMessageIndex (showContent k m i s) = currentMessageIndex s"
    and "phaseLog (showContent k m i s) = phaseLog s @ [ContentVisible k]"
  using assms
  by (simp_all add: showContent_def showMessageContent_def setTimeout_def Let_def
        completionDelay_def)

lemma completionDelay_nonneg: "0 \<le> completionDelay m"
  by (simp add: completionDelay_def)

lemma complete_fields:
  assumes "timers s = []"
  shows "callStatus (complete flow k s) = Connected"
    and "currentSpeaker (complete flow k s) = None"
    and "clock (complete flow k s) = clock s"
    and "messages (complete flow k s) = messages s"
    and "currentMessageIndex (complete flow k s) = currentMessageIndex s + 1"
    and "phaseLog (complete flow k s) = phaseLog s @ [Completed k]"
    and "timers (complete flow k s) =
           (if length flow \<le> currentMessageIndex s + 1 then []
            else [(nextHandle s,
                   clock s + max 0 (f_delay (flow ! (currentMessageIndex s + 1))),
                   ProcessMessage (currentMessageIndex s + 1)
                     (flow ! (currentMessageIndex s + 1)))])"
  using assms
  by (simp_all add: complete_def conversationEffect_def conversationCleanup_def
        clearTimeout_def setTimeout_def Let_def split: option.splits)

lemma fire_scheduled:
  assumes "scheduled flow k s"
  shows "pendingReveal flow k (fireTimer flow s)"
proof -
  from assms obtain h due where t: "timers s = [(h, due, ProcessMessage k (flow ! k))]"
    by (auto simp: scheduled_def)
  let ?s0 = "s\<lparr>clock := max (clock s) due, timers := []\<rparr>"
  have f: "fireTimer flow s = processMessage k (flow ! k) ?s0"
    by (simp add: fireTimer_single [OF t] runAction_def)
  have t0: "timers ?s0 = []" by simp
  note pf = processMessage_fields [OF t0, of k "flow ! k"]
  from assms have q: "filter inFlight (messages s) = []"
    by (auto simp: scheduled_def quiet_def filter_empty_conv)
  have w: "inFlight (waveformMessage sp x)" "m_isAnimating (waveformMessage sp x) = None"
    "m_id (waveformMessage sp x) = MessageId x" for sp x
    by (simp_all add: inFlight_def waveformMessage_def)
  let ?s1 = "processMessage k (flow ! k) ?s0"
  have n: "noAnimating ?s1"
    using assms w by (auto simp: noAnimating_def pf scheduled_def)
  have c: "length (filter inFlight (messages ?s1)) \<le> 1"
    using q w by (simp add: pf)
  have i: "\<forall>m \<in> set (messages ?s1). inFlight m \<longrightarrow> m_id m = MessageId (clock ?s0)"
    using assms w by (auto simp: pf scheduled_def quiet_def)
  from assms have k: "k < length flow" and ci: "currentMessageIndex s = k"
    and lg: "phaseLog s = take (4 * k) (canonicalPhases (length flow))"
    by (simp_all add: scheduled_def)
  have lg': "phaseLog ?s1 = take (4 * k + 1) (canonicalPhases (length flow))"
    using phase_steps(1) [OF k] lg by (simp add: pf)
  show ?thesis
    unfolding pendingReveal_def f using n c i k ci lg' by (simp add: pf)
qed

lemma fire_pendingReveal:
  assumes "pendingReveal flow k s"
  shows "speaking flow k (fireTimer flow s)"
proof -
  from assms obtain h due mid where t: "timers s = [(h, due, RevealStart k (flow ! k) mid)]"
    and i: "\<forall>m \<in> set (messages s). inFlight m \<longrightarrow> m_id m = mid"
    by (auto simp: pendingReveal_def)
  let ?s0 = "s\<lparr>clock := max (clock s) due, timers := []\<rparr>"
  have f: "fireTimer flow s = revealStart k (flow ! k) mid ?s0"
    by (simp add: fireTimer_single [OF t] runAction_def)
  have t0: "timers ?s0 = []" by simp
  note pf = revealStart_fields [OF t0, of k "flow ! k" mid]
  from assms have na: "noAnimating s" by (simp add: pendingReveal_def)
  have q: "quiet (revealStart k (flow ! k) mid ?s0)"
    using i na by (auto simp: quiet_def pf inFlight_def noAnimating_def)
  have n: "noAnimating (revealStart k (flow ! k) mid ?s0)"
    using na by (auto simp: noAnimating_def pf)
  show ?thesis
    unfolding speaking_def f using q n assms phase_steps(2) [of k "length flow"]
    by (auto simp: pf pendingReveal_def)
qed

lemma fire_speaking:
  assumes "speaking flow k s"
  shows "contentShown flow k (fireTimer flow s)"
proof -
  from assms obtain h due mid where t: "timers s = [(h, due, ShowContent k (flow ! k) mid)]"
    by (auto simp: speaking_def)
  let ?s0 = "s\<lparr>clock := max (clock s) due, timers := []\<rparr>"
  have f: "fireTimer flow s = showContent k (flow ! k) mid ?s0"
    by (simp add: fireTimer_single [OF t] runAction_def)
  have t0: "timers ?s0 = []" by simp
  note pf = showContent_fields [OF t0, of k "flow ! k" mid]
  from assms have na: "noAnimating s" and qs: "quiet s" by (simp_all add: speaking_def)
  have q: "quiet (showContent k (flow ! k) mid ?s0)"
    using qs by (auto simp: quiet_def pf inFlight_def)
  have n: "noAnimating (showContent k (flow ! k) mid ?s0)"
    using na by (auto simp: noAnimating_def pf)
  show ?thesis
    unfolding contentShown_def f using q n assms phase_steps(3) [of k "length flow"]
    by (auto simp: pf speaking_def)
qed

lemma fire_contentShown:
  assumes "contentShown flow k s"
  shows "if Suc k < length flow then scheduled flow (Suc k) (fireTimer flow s)
         else finished flow (fireTimer flow s)"
proof -
  from assms obtain h due where t: "timers s = [(h, due, Complete k)]"
    by (auto simp: contentShown_def)
  let ?s0 = "s\<lparr>clock := max (clock s) due, timers := []\<rparr>"
  have f: "fireTimer flow s = complete flow k ?s0"
    by (simp add: fireTimer_single [OF t] runAction_def)
  have t0: "timers ?s0 = []" by simp
  note pf = complete_fields [OF t0, of flow k]
  from assms have na: "noAnimating s" and qs: "quiet s" and k: "k < length flow"
    and ci: "currentMessageIndex s = k"
    by (simp_all add: contentShown_def)
  have q: "quiet (complete flow k ?s0)" using qs by (simp add: quiet_def pf)
  have n: "noAnimating (complete flow k ?s0)" using na by (simp add: noAnimating_def pf)
  have lg: "phaseLog (complete flow k ?s0) = take (4 * Suc k) (canonicalPhases (length flow))"
    using assms phase_steps(4) [OF k] by (simp add: pf contentShown_def)
  show ?thesis
  proof (cases "Suc k < length flow")
    case True
    then show ?thesis
      unfolding f scheduled_def using q n lg ci by (simp add: pf)
  next
    case False
    with k have e: "Suc k = length flow" by simp
    then have "take (4 * Suc k) (canonicalPhases (length flow)) = canonicalPhases (length flow)"
      by (simp add: length_canonicalPhases)
    with False show ?thesis
      unfolding f finished_def using q n lg ci e by (simp add: pf)
  qed
qed

lemma fire_finished: "finished flow s \<Longrightarrow> fireTimer flow s = s"
  by (simp add: finished_def fireTimer_none)

lemma fireTimer_inv: "driverInv flow s \<Longrightarrow> driverInv flow (fireTimer flow s)"
  unfolding driverInv_def
  using fire_scheduled fire_pendingReveal fire_speaking fire_contentShown fire_finished
  by (metis (full_types))

lemma handleSendMessage_frame: "userFrame s (handleSendMessage s)"
  by (simp add: userFrame_def handleSendMessage_def Let_def inFlight_def)

lemma userFrame_refl: "userFrame s s"
  by (simp add: userFrame_def)

lemma user_events_frame:
  "userFrame s (wait t s)" "userFrame s (changeInput v s)" "userFrame s (clickSend s)"
  "userFrame s (pressEnter s)" "userFrame s (toggleMute s)"
  using handleSendMessage_frame [of s]
  by (simp_all add: wait_def changeInput_def clickSend_def pressEnter_def toggleMute_def
        userFrame_refl) (simp_all add: userFrame_def)

lemma userFrame_quiet: "userFrame s s' \<Longrightarrow> quiet s \<Longrightarrow> quiet s'"
  by (auto simp: userFrame_def quiet_def)

lemma userFrame_noAnimating: "userFrame s s' \<Longrightarrow> noAnimating s \<Longrightarrow> noAnimating s'"
  by (auto simp: userFrame_def noAnimating_def)

lemma userFrame_filter:
  "userFrame s s' \<Longrightarrow> filter inFlight (messages s') = filter inFlight (messages s)"
  by (auto simp: userFrame_def)

lemma userFrame_scheduled: "userFrame s s' \<Longrightarrow> scheduled flow k s \<Longrightarrow> scheduled flow k s'"
  using userFrame_quiet [of s s'] userFrame_noAnimating [of s s']
  by (simp add: scheduled_def) (simp add: userFrame_def)

lemma userFrame_pendingReveal:
  assumes "userFrame s s'" and "pendingReveal flow k s"
  shows "pendingReveal flow k s'"
proof -
  from assms(2) obtain h due mid where t: "timers s = [(h, due, RevealStart k (flow ! k) mid)]"
    and i: "\<forall>m \<in> set (messages s). inFlight m \<longrightarrow> m_id m = mid"
    by (auto simp: pendingReveal_def)
  from assms(1) i have i': "\<forall>m \<in> set (messages s'). inFlight m \<longrightarrow> m_id m = mid"
    by (auto simp: userFrame_def)
  from assms(1) t have t': "timers s' = [(h, due, RevealStart k (flow ! k) mid)]"
    by (simp add: userFrame_def)
  from assms(2) have a: "k < length flow" "currentMessageIndex s = k" "noAnimating s"
      "callStatus s = (if f_speaker (flow ! k) = Customer then Listening else Processing)"
      "phaseLog s = take (4 * k + 1) (canonicalPhases (length flow))"
      "length (filter inFlight (messages s)) \<le> 1"
    by (simp_all add: pendingReveal_def)
  from assms(1) have b: "callStatus s' = callStatus s"
      "currentMessageIndex s' = currentMessageIndex s" "phaseLog s' = phaseLog s"
    by (simp_all add: userFrame_def)
  have "\<exists>h due mid. timers s' = [(h, due, RevealStart k (flow ! k) mid)]
            \<and> (\<forall>m \<in> set (messages s'). inFlight m \<longrightarrow> m_id m = mid)"
    using t' i' by blast
  then show ?thesis
    unfolding pendingReveal_def
    using a b userFrame_noAnimating [OF assms(1)] userFrame_filter [OF assms(1)]
    by simp
qed

lemma userFrame_speaking: "userFrame s s' \<Longrightarrow> speaking flow k s \<Longrightarrow> speaking flow k s'"
  using userFrame_quiet [of s s'] userFrame_noAnimating [of s s']
  by (simp add: speaking_def) (simp add: userFrame_def)

lemma userFrame_contentShown:
  "userFrame s s' \<Longrightarrow> contentShown flow k s \<Longrightarrow> contentShown flow k s'"
  using userFrame_quiet [of s s'] userFrame_noAnimating [of s s']
  by (simp add: contentShown_def) (simp add: userFrame_def)

lemma userFrame_finished: "userFrame s s' \<Longrightarrow> finished flow s \<Longrightarrow> finished flow s'"
  using userFrame_quiet [of s s'] userFrame_noAnimating [of s s']
  by (simp add: finished_def) (simp add: userFrame_def)

lemma userFrame_inv: "userFrame s s' \<Longrightarrow> driverInv flow s \<Longrightarrow> driverInv flow s'"
  unfolding driverInv_def
  using userFrame_scheduled userFrame_pendingReveal userFrame_speaking userFrame_contentShown
    userFrame_finished
  by metis

lemma applyEvent_inv: "driverInv flow s \<Longrightarrow> driverInv flow (applyEvent flow e s)"
  using userFrame_inv [of s _ flow] user_events_frame [of s]
  by (cases e) (simp_all add: applyEvent_def fireTimer_inv)

lemma initialWindow_inv: "driverInv flow (initialWindow flow)"
proof (cases "flow = []")
  case True
  then have "finished flow (initialWindow flow)"
    by (simp add: finished_def initialWindow_def conversationEffect_def quiet_def
          noAnimating_def canonicalPhases_def)
  then show ?thesis by (simp add: driverInv_def)
next
  case False
  then have "scheduled flow 0 (initialWindow flow)"
    by (simp add: scheduled_def initialWindow_def conversationEffect_def setTimeout_def
          quiet_def noAnimating_def Let_def)
  then show ?thesis by (auto simp add: driverInv_def)
qed

lemma fold_inv:
  "driverInv flow s \<Longrightarrow> driverInv flow (fold (applyEvent flow) evs s)"
  by (induction evs arbitrary: s) (simp_all add: applyEvent_inv)

lemma run_inv: "driverInv flow (run flow evs)"
  unfolding run_def by (rule fold_inv) (rule initialWindow_inv)

lemma inv_log_take:
  assumes "driverInv flow s"
  shows "\<exists>L. phaseLog s = take L (canonicalPhases (length flow))"
proof -
  from assms consider "finished flow s" | j where "scheduled flow j s"
    | j where "pendingReveal flow j s" | j where "speaking flow j s"
    | j where "contentShown flow j s"
    by (auto simp: driverInv_def)
  then show ?thesis
  proof cases
    case 1
    then have "phaseLog s = take (length (canonicalPhases (length flow)))
                              (canonicalPhases (length flow))"
      by (simp add: finished_def)
    then show ?thesis by blast
  next
    case 2 then show ?thesis unfolding scheduled_def by blast
  next
    case 3 then show ?thesis unfolding pendingReveal_def by blast
  next
    case 4 then show ?thesis unfolding speaking_def by blast
  next
    case 5 then show ?thesis unfolding contentShown_def by blast
  qed
qed

lemma inv_inFlight: "driverInv flow s \<Longrightarrow> length (filter inFlight (messages s)) \<le> 1"
proof -
  assume "driverInv flow s"
  then consider "quiet s" | k where "pendingReveal flow k s"
    by (auto simp: driverInv_def scheduled_def speaking_def contentShown_def finished_def)
  then show ?thesis
  proof cases
    case 1
    then have "filter inFlight (messages s) = []" by (simp add: quiet_def filter_empty_conv)
    then show ?thesis by simp
  next
    case 2
    then show ?thesis by (simp add: pendingReveal_def)
  qed
qed

lemma inv_process_timer:
  assumes "driverInv flow s" and "(h, due, ProcessMessage k m) \<in> set (timers s)"
  shows "scheduled flow k s \<and> m = flow ! k"
proof -
  from assms(1) consider "finished flow s" | j where "scheduled flow j s"
    | j where "pendingReveal flow j s" | j where "speaking flow j s"
    | j where "contentShown flow j s"
    by (auto simp: driverInv_def)
  then show ?thesis
  proof cases
    case 1 with assms(2) show ?thesis by (simp add: finished_def)
  next
    case 2 with assms(2) show ?thesis by (auto simp: scheduled_def)
  next
    case 3 with assms(2) show ?thesis by (auto simp: pendingReveal_def)
  next
    case 4 with assms(2) show ?thesis by (auto simp: speaking_def)
  next
    case 5 with assms(2) show ?thesis by (auto simp: contentShown_def)
  qed
qed

lemma canonical_pending:
  assumes "i < 4 * n" and "canonicalPhases n ! i = PendingReveal (Suc k)"
  shows "i = 4 * Suc k \<and> canonicalPhases n ! (i - 1) = Completed k"
proof -
  let ?a = "i div 4" and ?b = "i mod 4"
  have a: "?a < n" using assms(1) by (simp add: less_mult_imp_div_less mult.commute)
  have b: "?b < 4" by simp
  have i: "4 * ?a + ?b = i" by simp
  have "canonicalPhases n ! i = turnPhases ?a ! ?b"
    using nth_canonicalPhases [OF a b] by (simp only: i)
  with assms(2) have tp: "turnPhases ?a ! ?b = PendingReveal (Suc k)" by simp
  from b consider "?b = 0" | "?b = 1" | "?b = 2" | "?b = 3" by linarith
  then have "?b = 0 \<and> ?a = Suc k"
    using tp by cases (simp_all add: turnPhases_def)
  then have ie: "i = 4 * Suc k" using i by (metis add.right_neutral)
  have k: "k < n" using a \<open>?b = 0 \<and> ?a = Suc k\<close> by simp
  have "canonicalPhases n ! (4 * k + 3) = turnPhases k ! 3"
    by (rule nth_canonicalPhases [OF k]) simp
  then have "canonicalPhases n ! (i - 1) = Completed k"
    by (simp add: ie turnPhases_def numeral_3_eq_3)
  with ie show ?thesis by simp
qed

text \<open>
  Claim C1.  In every state the window reaches, under any sequence of timeouts and user
  events: the phases logged so far are an initial part of the canonical order, in which the
  four phases of turn \<open>k\<close> come before those of turn \<open>k + 1\<close>; at most one message is in
  flight; a timeout for \<open>processMessage\<close> of turn \<open>k\<close> is pending only when the turn index is
  \<open>k\<close>, the call status is \<open>Connected\<close>, all phases of the earlier turns and no others are
  logged, and no message is in flight; and the pending-reveal phase of turn \<open>j + 1\<close> is
  logged directly after the completion of turn \<open>j\<close>.
\<close>

theorem turns_do_not_overlap:
  "prefix (phaseLog (run flow evs)) (canonicalPhases (length flow))
   \<and> length (filter inFlight (messages (run flow evs))) \<le> 1
   \<and> ((h, due, ProcessMessage k m) \<in> set (timers (run flow evs)) \<longrightarrow>
        m = flow ! k \<and> k = currentMessageIndex (run flow evs)
        \<and> callStatus (run flow evs) = Connected
        \<and> phaseLog (run flow evs) = take (4 * k) (canonicalPhases (length flow))
        \<and> filter inFlight (messages (run flow evs)) = [])
   \<and> (i < length (phaseLog (run flow evs))
        \<and> phaseLog (run flow evs) ! i = PendingReveal (Suc j) \<longrightarrow>
        0 < i \<and> phaseLog (run flow evs) ! (i - 1) = Completed j)"
proof -
  let ?s = "run flow evs"
  let ?C = "canonicalPhases (length flow)"
  have inv: "driverInv flow ?s" by (rule run_inv)
  from inv_log_take [OF inv] obtain L where L: "phaseLog ?s = take L ?C" by blast
  have 1: "prefix (phaseLog ?s) ?C" unfolding L by (rule take_is_prefix)
  have 2: "length (filter inFlight (messages ?s)) \<le> 1" using inv by (rule inv_inFlight)
  have 3: "(h, due, ProcessMessage k m) \<in> set (timers ?s) \<longrightarrow>
        m = flow ! k \<and> k = currentMessageIndex ?s \<and> callStatus ?s = Connected
        \<and> phaseLog ?s = take (4 * k) ?C \<and> filter inFlight (messages ?s) = []"
  proof
    assume "(h, due, ProcessMessage k m) \<in> set (timers ?s)"
    from inv_process_timer [OF inv this] show "m = flow ! k \<and> k = currentMessageIndex ?s
        \<and> callStatus ?s = Connected
        \<and> phaseLog ?s = take (4 * k) ?C \<and> filter inFlight (messages ?s) = []"
      by (simp add: scheduled_def quiet_def filter_empty_conv)
  qed
  have 4: "i < length (phaseLog ?s) \<and> phaseLog ?s ! i = PendingReveal (Suc j) \<longrightarrow>
        0 < i \<and> phaseLog ?s ! (i - 1) = Completed j"
  proof
    assume a: "i < length (phaseLog ?s) \<and> phaseLog ?s ! i = PendingReveal (Suc j)"
    then have iL: "i < L" and iC: "i < 4 * length flow"
      by (simp_all add: L length_canonicalPhases)
    from a have "?C ! i = PendingReveal (Suc j)" using iL by (simp add: L)
    note cp = canonical_pending [OF iC this]
    from cp have ie: "i = 4 * Suc j" by (rule conjunct1)
    from cp have c: "?C ! (i - 1) = Completed j" by (rule conjunct2)
    have "phaseLog ?s ! (i - 1) = ?C ! (i - 1)" using iL by (simp add: L)
    with ie c show "0 < i \<and> phaseLog ?s ! (i - 1) = Completed j" by simp
  qed
  from 1 2 3 4 show ?thesis by blast
qed

lemma initial_scheduled: "flow \<noteq> [] \<Longrightarrow> scheduled flow 0 (initialWindow flow)"
  by (simp add: scheduled_def initialWindow_def conversationEffect_def setTimeout_def
        quiet_def noAnimating_def Let_def)

lemma initial_timers:
  "flow \<noteq> [] \<Longrightarrow>
   timers (initialWindow flow) = [(0, max 0 (f_delay (flow ! 0)), ProcessMessage 0 (flow ! 0))]
   \<and> clock (initialWindow flow) = 0"
  by (simp add: initialWindow_def conversationEffect_def setTimeout_def Let_def)

lemma turn_stage:
  assumes "scheduled flow k s"
  shows "if Suc k < length flow
         then scheduled flow (Suc k) (fireTimer flow (fireTimer flow (fireTimer flow (fireTimer flow s))))
         else finished flow (fireTimer flow (fireTimer flow (fireTimer flow (fireTimer flow s))))"
  using fire_contentShown [OF fire_speaking [OF fire_pendingReveal [OF fire_scheduled [OF assms]]]]
  by simp

lemma finished_stable:
  "finished flow s \<Longrightarrow> finished flow (fold (applyEvent flow) evs s)"
proof (induction evs arbitrary: s)
  case Nil
  then show ?case by simp
next
  case (Cons e evs)
  have "finished flow (applyEvent flow e s)"
    using Cons.prems userFrame_finished [of s _ flow] user_events_frame [of s]
    by (cases e) (simp_all add: applyEvent_def fire_finished)
  then show ?case using Cons.IH by simp
qed

lemma inv_end:
  assumes "driverInv flow s" and "length flow \<le> currentMessageIndex s"
  shows "finished flow s"
  using assms
  by (auto simp: driverInv_def scheduled_def pendingReveal_def speaking_def contentShown_def)

lemma run_append: "run flow (evs @ evs') = fold (applyEvent flow) evs' (run flow evs)"
  by (simp add: run_def)

lemma demo_phases:
  "phaseLog (run demoFlow [FireTimer, FireTimer, FireTimer, FireTimer, FireTimer]) =
     [PendingReveal 0, RevealStarted 0, ContentVisible 0, Completed 0, PendingReveal 1]"
proof -
  have ne: "demoFlow \<noteq> []" and l: "length demoFlow = 2" by (simp_all add: demoFlow_def)
  have r: "run demoFlow [FireTimer, FireTimer, FireTimer, FireTimer, FireTimer] =
      fireTimer demoFlow (fireTimer demoFlow (fireTimer demoFlow (fireTimer demoFlow
        (fireTimer demoFlow (initialWindow demoFlow)))))"
    by (simp add: run_def applyEvent_def)
  have "scheduled demoFlow 1 (fireTimer demoFlow (fireTimer demoFlow (fireTimer demoFlow
        (fireTimer demoFlow (initialWindow demoFlow)))))"
    using turn_stage [OF initial_scheduled [OF ne]] by (simp add: l)
  then have "pendingReveal demoFlow 1 (run demoFlow [FireTimer, FireTimer, FireTimer, FireTimer, FireTimer])"
    unfolding r by (rule fire_scheduled)
  then have "phaseLog (run demoFlow [FireTimer, FireTimer, FireTimer, FireTimer, FireTimer]) =
      take 5 (canonicalPhases 2)"
    by (simp add: pendingReveal_def l)
  also have "\<dots> = [PendingReveal 0, RevealStarted 0, ContentVisible 0, Completed 0, PendingReveal 1]"
  proof -
    have "canonicalPhases (Suc (Suc 0)) = turnPhases 0 @ turnPhases (Suc 0)"
      by (simp add: canonicalPhases_Suc) (simp add: canonicalPhases_def)
    then show ?thesis by (simp add: numeral_2_eq_2 turnPhases_def)
  qed
  finally show ?thesis .
qed

theorem turns_do_not_overlap_witness:
  "callStatus (run demoFlow []) = Connected
   \<and> currentMessageIndex (run demoFlow []) = 0
   \<and> phaseLog (run demoFlow []) = []
   \<and> phaseLog (run demoFlow [FireTimer, FireTimer, FireTimer, FireTimer, FireTimer]) ! 4
        = PendingReveal 1
   \<and> phaseLog (run demoFlow [FireTimer, FireTimer, FireTimer, FireTimer, FireTimer]) ! 3
        = Completed 0
   \<and> length (filter inFlight
        (messages (run demoFlow [FireTimer, FireTimer, FireTimer, FireTimer, FireTimer]))) \<le> 1"
proof -
  have ne: "demoFlow \<noteq> []" by (simp add: demoFlow_def)
  have d0: "f_delay (demoFlow ! 0) = 1000" by (simp add: demoFlow_def)
  have t: "(0, 1000, ProcessMessage 0 (demoFlow ! 0)) \<in> set (timers (run demoFlow []))"
    using initial_timers [OF ne] by (simp add: run_def d0)
  have a: "callStatus (run demoFlow []) = Connected
   \<and> currentMessageIndex (run demoFlow []) = 0 \<and> phaseLog (run demoFlow []) = []"
    using t turns_do_not_overlap [of demoFlow "[]" 0 1000 0 "demoFlow ! 0" 0 0] by simp
  let ?e = "[FireTimer, FireTimer, FireTimer, FireTimer, FireTimer]"
  have p: "4 < length (phaseLog (run demoFlow ?e))
           \<and> phaseLog (run demoFlow ?e) ! 4 = PendingReveal (Suc 0)"
    by (simp add: demo_phases)
  have b: "phaseLog (run demoFlow ?e) ! 3 = Completed 0
           \<and> length (filter inFlight (messages (run demoFlow ?e))) \<le> 1"
    using p turns_do_not_overlap [of demoFlow ?e 0 0 0 "demoFlow ! 0" 4 0] by simp
  from a p b show ?thesis by simp
qed

text \<open>
  Claim C7.  From a state in which the timeout of \<open>processMessage\<close> for a turn is the one
  pending, the next four timeouts do this: at the due time the call status becomes
  \<open>Listening\<close> for a customer and \<open>Processing\<close> otherwise and the empty waveform message is
  appended; 1500 ms (ai) or 1200 ms (customer) later the status is \<open>Speaking\<close>, the content
  still hidden; 600 ms later the content is visible; and
  \<open>length * perCharSpeed * 1.2 + 300 + 500\<close> ms after that (40 ms per code unit for ai, 60
  for a customer) the status is \<open>Connected\<close> again, the current speaker is cleared and the
  turn index is one higher.  Then the next turn is scheduled, or, at the end of the script,
  nothing is pending and nothing changes any more, whatever events follow.
\<close>

theorem turn_phase_timing:
  assumes "timers s = [(h, due, ProcessMessage k m)]" and "clock s \<le> due"
  shows "let s1 = fireTimer flow s; s2 = fireTimer flow s1; s3 = fireTimer flow s2;
             s4 = fireTimer flow s3
         in clock s1 = due
            \<and> callStatus s1 = (if f_speaker m = Customer then Listening else Processing)
            \<and> messages s1 = messages s @ [waveformMessage (f_speaker m) due]
            \<and> clock s2 = clock s1 + (if f_speaker m = AI then 1500 else 1200)
            \<and> callStatus s2 = Speaking
            \<and> m_messageVisible (last (messages s2)) = Some False
            \<and> clock s3 = clock s2 + 600
            \<and> m_messageVisible (last (messages s3)) = Some True
            \<and> m_message (last (messages s3)) = f_message m
            \<and> clock s4 = clock s3
                 + (of_nat (length (f_message m)) * (if f_speaker m = AI then 40 else 60) * (12 / 10)
                    + 300 + 500)
            \<and> callStatus s4 = Connected
            \<and> currentSpeaker s4 = None
            \<and> currentMessageIndex s4 = currentMessageIndex s + 1
            \<and> (length flow \<le> currentMessageIndex s + 1 \<longrightarrow>
                 timers s4 = [] \<and> fireTimer flow s4 = s4)
            \<and> (currentMessageIndex s + 1 < length flow \<longrightarrow>
                 (\<exists>h'. timers s4 =
                    [(h', clock s4 + max 0 (f_delay (flow ! (currentMessageIndex s + 1))),
                      ProcessMessage (currentMessageIndex s + 1)
                        (flow ! (currentMessageIndex s + 1)))]))
            \<and> (length flow \<le> currentMessageIndex (run flow evs) \<longrightarrow>
                 timers (run flow (evs @ evs')) = []
                 \<and> callStatus (run flow (evs @ evs')) = Connected
                 \<and> currentMessageIndex (run flow (evs @ evs')) = length flow
                 \<and> phaseLog (run flow (evs @ evs')) = canonicalPhases (length flow))"
proof -
  let ?s0 = "s\<lparr>clock := max (clock s) due, timers := []\<rparr>"
  let ?s1 = "fireTimer flow s"
  have f1: "?s1 = processMessage k m ?s0"
    by (simp add: fireTimer_single [OF assms(1)] runAction_def)
  have t0: "timers ?s0 = []" by simp
  note p1 = processMessage_fields [OF t0, of k m, folded f1]
  have c0: "clock ?s0 = due" using assms(2) by simp
  let ?mid = "MessageId due"
  have t1: "timers ?s1 = [(nextHandle ?s0, due + waveformDuration (f_speaker m),
                            RevealStart k m ?mid)]"
    using p1(5) by (simp add: c0)
  let ?s1' = "?s1\<lparr>clock := max (clock ?s1) (due + waveformDuration (f_speaker m)), timers := []\<rparr>"
  let ?s2 = "fireTimer flow ?s1"
  have f2: "?s2 = revealStart k m ?mid ?s1'"
    by (simp add: fireTimer_single [OF t1] runAction_def)
  have t1': "timers ?s1' = []" by simp
  note p2 = revealStart_fields [OF t1', of k m ?mid, folded f2]
  have c1: "clock ?s1 = due" using p1(3) c0 by simp
  have c1': "clock ?s1' = due + waveformDuration (f_speaker m)"
    by (simp add: c1 waveformDuration_def)
  have t2: "timers ?s2 = [(nextHandle ?s1', clock ?s1' + 600, ShowContent k m ?mid)]"
    using p2(5) by simp
  let ?s2' = "?s2\<lparr>clock := max (clock ?s2) (clock ?s1' + 600), timers := []\<rparr>"
  let ?s3 = "fireTimer flow ?s2"
  have f3: "?s3 = showContent k m ?mid ?s2'"
    by (simp add: fireTimer_single [OF t2] runAction_def)
  have t2': "timers ?s2' = []" by simp
  note p3 = showContent_fields [OF t2', of k m ?mid, folded f3]
  have c2: "clock ?s2 = clock ?s1'" using p2(3) by simp
  have c2': "clock ?s2' = clock ?s1' + 600" by (simp add: c2)
  have t3: "timers ?s3 = [(nextHandle ?s2', clock ?s2' + completionDelay m, Complete k)]"
    using p3(5) completionDelay_nonneg [of m] by simp
  let ?s3' = "?s3\<lparr>clock := max (clock ?s3) (clock ?s2' + completionDelay m), timers := []\<rparr>"
  let ?s4 = "fireTimer flow ?s3"
  have f4: "?s4 = complete flow k ?s3'"
    by (simp add: fireTimer_single [OF t3] runAction_def)
  have t3': "timers ?s3' = []" by simp
  note p4 = complete_fields [OF t3', of flow k, folded f4]
  have c3: "clock ?s3 = clock ?s2'" using p3(3) by simp
  have c3': "clock ?s3' = clock ?s2' + completionDelay m"
    using completionDelay_nonneg [of m] by (simp add: c3)
  have c4: "clock ?s4 = clock ?s3 + completionDelay m" using p4(3) c3' c3 by simp
  have m1: "messages ?s1 = messages s @ [waveformMessage (f_speaker m) due]"
    using p1(4) by (simp add: c0)
  have m2: "last (messages ?s2) =
      (waveformMessage (f_speaker m) due)\<lparr>m_message := f_message m, m_sentiment := f_sentiment m,
                            m_isNew := Some False, m_showWaveformFirst := Some False\<rparr>"
    using p2(4) by (simp add: m1 waveformMessage_def)
  have ne2: "messages ?s2 \<noteq> []" using p2(4) by (simp add: m1)
  have m3: "last (messages ?s3) =
      (last (messages ?s2))\<lparr>m_messageVisible := Some True, m_isAnimating := Some False\<rparr>"
    using p3(4) ne2 by (simp add: last_map m2 waveformMessage_def)
  have i4: "currentMessageIndex ?s4 = currentMessageIndex s + 1"
    using p4(5) p3(6) p2(6) p1(6) by simp
  have i3: "currentMessageIndex ?s3 = currentMessageIndex s"
    using p3(6) p2(6) p1(6) by simp
  have e: "length flow \<le> currentMessageIndex s + 1 \<longrightarrow>
                 timers ?s4 = [] \<and> fireTimer flow ?s4 = ?s4"
    using p4(7) by (simp add: i3 fireTimer_none)
  have g: "currentMessageIndex s + 1 < length flow \<longrightarrow>
                 (\<exists>h'. timers ?s4 =
                    [(h', clock ?s4 + max 0 (f_delay (flow ! (currentMessageIndex s + 1))),
                      ProcessMessage (currentMessageIndex s + 1)
                        (flow ! (currentMessageIndex s + 1)))])"
    using p4(7) p4(3) by (simp add: i3)
  have st: "length flow \<le> currentMessageIndex (run flow evs) \<longrightarrow>
                 timers (run flow (evs @ evs')) = []
                 \<and> callStatus (run flow (evs @ evs')) = Connected
                 \<and> currentMessageIndex (run flow (evs @ evs')) = length flow
                 \<and> phaseLog (run flow (evs @ evs')) = canonicalPhases (length flow)"
  proof
    assume "length flow \<le> currentMessageIndex (run flow evs)"
    with run_inv have "finished flow (run flow evs)" by (rule inv_end)
    then have "finished flow (run flow (evs @ evs'))"
      unfolding run_append by (rule finished_stable)
    then show "timers (run flow (evs @ evs')) = []
                 \<and> callStatus (run flow (evs @ evs')) = Connected
                 \<and> currentMessageIndex (run flow (evs @ evs')) = length flow
                 \<and> phaseLog (run flow (evs @ evs')) = canonicalPhases (length flow)"
      by (simp add: finished_def)
  qed
  have main: "clock ?s1 = due
            \<and> callStatus ?s1 = (if f_speaker m = Customer then Listening else Processing)
            \<and> messages ?s1 = messages s @ [waveformMessage (f_speaker m) due]
            \<and> clock ?s2 = clock ?s1 + (if f_speaker m = AI then 1500 else 1200)
            \<and> callStatus ?s2 = Speaking
            \<and> m_messageVisible (last (messages ?s2)) = Some False
            \<and> clock ?s3 = clock ?s2 + 600
            \<and> m_messageVisible (last (messages ?s3)) = Some True
            \<and> m_message (last (messages ?s3)) = f_message m
            \<and> clock ?s4 = clock ?s3
                 + (of_nat (length (f_message m)) * (if f_speaker m = AI then 40 else 60) * (12 / 10)
                    + 300 + 500)
            \<and> callStatus ?s4 = Connected
            \<and> currentSpeaker ?s4 = None
            \<and> currentMessageIndex ?s4 = currentMessageIndex s + 1"
    using c1 p1(1) m1 c2 c1' p2(1) m2 c3 c2' m3 c4 p4(1) p4(2) i4
    by (simp add: waveformDuration_def completionDelay_def waveformMessage_def)
  show ?thesis
    unfolding Let_def using main e g st by blast
qed

lemma demo_finished:
  "finished demoFlow (run demoFlow [FireTimer, FireTimer, FireTimer, FireTimer,
                                     FireTimer, FireTimer, FireTimer, FireTimer])"
proof -
  have ne: "demoFlow \<noteq> []" and l: "length demoFlow = 2" by (simp_all add: demoFlow_def)
  have r: "run demoFlow [FireTimer, FireTimer, FireTimer, FireTimer,
                         FireTimer, FireTimer, FireTimer, FireTimer] =
      fireTimer demoFlow (fireTimer demoFlow (fireTimer demoFlow (fireTimer demoFlow
       (fireTimer demoFlow (fireTimer demoFlow (fireTimer demoFlow (fireTimer demoFlow
        (initialWindow demoFlow))))))))"
    by (simp add: run_def applyEvent_def)
  have "scheduled demoFlow 1 (fireTimer demoFlow (fireTimer demoFlow (fireTimer demoFlow
        (fireTimer demoFlow (initialWindow demoFlow)))))"
    using turn_stage [OF initial_scheduled [OF ne]] by (simp add: l)
  from turn_stage [OF this] show ?thesis unfolding r by (simp add: l)
qed

theorem turn_phase_timing_witness:
  "clock (fireTimer demoFlow (initialWindow demoFlow)) = 1000
   \<and> callStatus (fireTimer demoFlow (initialWindow demoFlow)) = Processing
   \<and> clock (fireTimer demoFlow (fireTimer demoFlow (initialWindow demoFlow))) = 2500
   \<and> callStatus (fireTimer demoFlow (fireTimer demoFlow (initialWindow demoFlow))) = Speaking
   \<and> clock (fireTimer demoFlow (fireTimer demoFlow (fireTimer demoFlow
               (initialWindow demoFlow)))) = 3100
   \<and> clock (fireTimer demoFlow (fireTimer demoFlow (fireTimer demoFlow (fireTimer demoFlow
               (initialWindow demoFlow))))) = 3996
   \<and> callStatus (fireTimer demoFlow (fireTimer demoFlow (fireTimer demoFlow (fireTimer demoFlow
               (initialWindow demoFlow))))) = Connected
   \<and> currentMessageIndex (fireTimer demoFlow (fireTimer demoFlow (fireTimer demoFlow
               (fireTimer demoFlow (initialWindow demoFlow))))) = 1
   \<and> timers (run demoFlow ([FireTimer, FireTimer, FireTimer, FireTimer,
                                FireTimer, FireTimer, FireTimer, FireTimer] @ [FireTimer, Wait 99999]))
        = []"
proof -
  have ne: "demoFlow \<noteq> []" and l: "length demoFlow = 2" by (simp_all add: demoFlow_def)
  have m: "demoFlow ! 0 = \<lparr>f_speaker = AI, f_message = js ''Hi'', f_sentiment = None,
                              f_delay = 1000\<rparr>"
    by (simp add: demoFlow_def)
  have t: "timers (initialWindow demoFlow) = [(0, 1000, ProcessMessage 0 (demoFlow ! 0))]"
    and c: "clock (initialWindow demoFlow) \<le> 1000"
    and i: "currentMessageIndex (initialWindow demoFlow) = 0"
    using initial_timers [OF ne] initial_scheduled [OF ne] by (simp_all add: m scheduled_def)
  have fin: "length demoFlow \<le> currentMessageIndex (run demoFlow [FireTimer, FireTimer,
               FireTimer, FireTimer, FireTimer, FireTimer, FireTimer, FireTimer])"
    using demo_finished by (simp add: finished_def)
  have len: "length (js ''Hi'') = 2" by (simp add: js_def)
  show ?thesis
    using fin turn_phase_timing [OF t c, of demoFlow
       "[FireTimer, FireTimer, FireTimer, FireTimer, FireTimer, FireTimer, FireTimer, FireTimer]"
       "[FireTimer, Wait 99999]"]
    by (simp add: Let_def m len i)
qed

end
